theory Spec2Isabelle
  imports Main "HOL-Library.Word" "HOL-Library.Monad_Syntax" "HOL-Library.Multiset"
begin

unbundle bit_operations_syntax

section \<open>Device memory, kernel launches and host transfers\<close>

text \<open>
  An element is a C \<open>int\<close>: a 32-bit word whose arithmetic wraps around. A buffer is the
  list of the elements of one allocation. Sizes, thread indices and loop counters are
  natural numbers (the source holds them in \<open>int\<close>, which is exact as long as the padded
  length is at most \<open>2 ^ 30\<close>). A call that cannot complete is the value \<open>None\<close>: an
  access outside an allocation, an allocation or a launch that the runtime rejects (the
  error check that follows is fatal to the call).
\<close>

type_synonym i32 = "32 word"
type_synonym buffer = "i32 list"

definition blockSize :: nat where
  "blockSize = 128"

definition load :: "buffer \<Rightarrow> nat \<Rightarrow> i32 option" where
  "load x i = (if i < length x then Some (x ! i) else None)"

definition store :: "buffer \<Rightarrow> nat \<Rightarrow> i32 \<Rightarrow> buffer option" where
  "store x i v = (if i < length x then Some (x[i := v]) else None)"

text \<open>An index held in an \<open>int\<close> cell of the device: a negative one is outside the buffer.\<close>

definition store_at :: "buffer \<Rightarrow> i32 \<Rightarrow> i32 \<Rightarrow> buffer option" where
  "store_at x j v = (if sint j < 0 then None else store x (nat (sint j)) v)"

text \<open>
  Sequential composition of fallible steps over a list of indices. It serves for the
  host's \<open>for\<close> loops and for the threads of one launch.
\<close>

primrec steps :: "nat list \<Rightarrow> (nat \<Rightarrow> 'm \<Rightarrow> 'm option) \<Rightarrow> 'm \<Rightarrow> 'm option" where
  "steps [] body m = Some m"
| "steps (i # js) body m = Option.bind (body i m) (steps js body)"

text \<open>
  \<open>kernel <<<blocks, blockSize>>> (...)\<close>: one thread for every
  \<open>index = threadIdx.x + blockIdx.x * blockDim.x\<close> below \<open>blocks * blockSize\<close>. A grid
  of no block is an invalid configuration: the runtime rejects the launch, no thread
  runs, and the call fails. The threads are run in ascending order of \<open>index\<close>, which is
  the result of the parallel run whenever no two threads of the launch write the same
  cell; successive launches on the default stream do not overlap.
\<close>

definition launch :: "nat \<Rightarrow> (nat \<Rightarrow> 'm \<Rightarrow> 'm option) \<Rightarrow> 'm \<Rightarrow> 'm option" where
  "launch blocks body m =
     (if blocks = 0 then None else steps [0..<blocks * blockSize] body m)"

text \<open>
  \<open>cudaMalloc\<close> does not clear memory: the \<open>k\<close>-th allocation of a call starts with
  whatever the device held there, given by \<open>heap k\<close>.
\<close>

type_synonym heap = "nat \<Rightarrow> nat \<Rightarrow> i32"

definition cudaMalloc :: "heap \<Rightarrow> nat \<Rightarrow> nat \<Rightarrow> buffer" where
  "cudaMalloc heap k len = map (heap k) [0..<len]"

text \<open>\<open>cudaMemcpy(dst, src, len * sizeof(int), _)\<close> between two arrays.\<close>

definition cudaMemcpy :: "buffer \<Rightarrow> buffer \<Rightarrow> nat \<Rightarrow> buffer option" where
  "cudaMemcpy dst src len =
     (if len \<le> length src \<and> len \<le> length dst
      then Some (take len src @ drop len dst) else None)"

text \<open>
  Modelled from the spec: \<open>ilog2ceil\<close> of \<open>common.h\<close>, which is not among the sources.
  The spec defines the padded length \<open>1 << ilog2ceil(n)\<close> as the smallest power of two
  that is at least \<open>n\<close>.
\<close>

fun ilog2ceil :: "nat \<Rightarrow> nat" where
  "ilog2ceil n = (if n \<le> 1 then 0 else Suc (ilog2ceil ((n + 1) div 2)))"

declare ilog2ceil.simps [simp del]

section \<open>Scan core\<close>

definition kernUpSweep :: "nat \<Rightarrow> nat \<Rightarrow> nat \<Rightarrow> buffer \<Rightarrow> buffer option" where
  "kernUpSweep index n d x =
     (if index \<ge> n then Some x
      else if index mod 2 ^ (d + 1) = 0 then
        do {
          a \<leftarrow> load x (index + 2 ^ (d + 1) - 1);
          b \<leftarrow> load x (index + 2 ^ d - 1);
          store x (index + 2 ^ (d + 1) - 1) (a + b)
        }
      else Some x)"

definition kernDownSweep :: "nat \<Rightarrow> nat \<Rightarrow> nat \<Rightarrow> buffer \<Rightarrow> buffer option" where
  "kernDownSweep index n d x =
     (if index \<ge> n then Some x
      else if index mod 2 ^ (d + 1) = 0 then
        do {
          t \<leftarrow> load x (index + 2 ^ d - 1);
          r \<leftarrow> load x (index + 2 ^ (d + 1) - 1);
          x \<leftarrow> store x (index + 2 ^ d - 1) r;
          r \<leftarrow> load x (index + 2 ^ (d + 1) - 1);
          store x (index + 2 ^ (d + 1) - 1) (r + t)
        }
      else Some x)"

text \<open>The first loop of \<open>upDownSweep\<close>: the up-sweep levels \<open>d = 0 .. ilog2ceil n - 1\<close>.\<close>

definition upSweep :: "nat \<Rightarrow> buffer \<Rightarrow> buffer option" where
  "upSweep n data =
     steps [0..<ilog2ceil n]
       (\<lambda>d. launch ((blockSize + n - 1) div blockSize) (\<lambda>index. kernUpSweep index n d)) data"

text \<open>\<open>cudaMemset(data + n - 1, 0, sizeof(int))\<close>.\<close>

definition clearLast :: "nat \<Rightarrow> buffer \<Rightarrow> buffer option" where
  "clearLast n data = (if n = 0 then None else store data (n - 1) 0)"

text \<open>The second loop: the down-sweep levels \<open>d = ilog2ceil n - 1 .. 0\<close>.\<close>

definition downSweep :: "nat \<Rightarrow> buffer \<Rightarrow> buffer option" where
  "downSweep n data =
     steps (rev [0..<ilog2ceil n])
       (\<lambda>d. launch ((blockSize + n - 1) div blockSize) (\<lambda>index. kernDownSweep index n d)) data"

definition upDownSweep :: "nat \<Rightarrow> buffer \<Rightarrow> buffer option" where
  "upDownSweep n data =
     do {
       data \<leftarrow> upSweep n data;
       data \<leftarrow> clearLast n data;
       downSweep n data
     }"

section \<open>Scan\<close>

text \<open>
  \<open>int intermArraySize = 1 << ilog2ceil(n)\<close> followed by the allocation of that many
  elements. The shift fits in an \<open>int\<close> up to \<open>2 ^ 30\<close>; for \<open>2 ^ 30 < n\<close> it is
  \<open>1 << 31\<close>, which is not a positive \<open>int\<close>: the allocation fails and the error check
  of line 74 ends the call.
\<close>

definition paddedLength :: "nat \<Rightarrow> nat option" where
  "paddedLength n = (if 2 ^ ilog2ceil n < (2::nat) ^ 31 then Some (2 ^ ilog2ceil n) else None)"

text \<open>Lines 69 to 75 of \<open>scan\<close>: the device buffer as it is handed to \<open>upDownSweep\<close>.\<close>

definition scan_input :: "nat \<Rightarrow> buffer \<Rightarrow> heap \<Rightarrow> buffer option" where
  "scan_input n idata heap =
     do {
       intermArraySize \<leftarrow> paddedLength n;
       let dev_data = cudaMalloc heap 0 intermArraySize;
       cudaMemcpy dev_data idata n
     }"

definition scan :: "nat \<Rightarrow> buffer \<Rightarrow> buffer \<Rightarrow> heap \<Rightarrow> buffer option" where
  "scan n odata idata heap =
     do {
       intermArraySize \<leftarrow> paddedLength n;
       let dev_data = cudaMalloc heap 0 intermArraySize;
       dev_data \<leftarrow> cudaMemcpy dev_data idata n;
       dev_data \<leftarrow> upDownSweep intermArraySize dev_data;
       cudaMemcpy odata dev_data n
     }"

section \<open>Stream compaction\<close>

text \<open>
  Modelled from the spec: \<open>Common::kernMapToBoolean(n, bools, idata)\<close> of \<open>common.cu\<close>,
  which is not among the sources. The spec: predicate[i] = 1 if in[i] is not 0, else 0,
  for i in [0, n); a worker with index at least the count is a no-op.
\<close>

definition kernMapToBoolean :: "nat \<Rightarrow> nat \<Rightarrow> buffer \<Rightarrow> buffer \<Rightarrow> buffer option" where
  "kernMapToBoolean index n bools idata =
     (if index \<ge> n then Some bools
      else do { v \<leftarrow> load idata index; store bools index (if v \<noteq> 0 then 1 else 0) })"

text \<open>
  Modelled from the spec: \<open>Common::kernScatter(n, odata, idata, bools, indices)\<close> of
  \<open>common.cu\<close>, which is not among the sources. The spec: for every i in [0, n) with
  predicate[i] = 1, write in[i] to out[scanResult[i]].
\<close>

definition kernScatterBools ::
  "nat \<Rightarrow> nat \<Rightarrow> buffer \<Rightarrow> buffer \<Rightarrow> buffer \<Rightarrow> buffer \<Rightarrow> buffer option" where
  "kernScatterBools index n odata idata bools indices =
     (if index \<ge> n then Some odata
      else do {
        b \<leftarrow> load bools index;
        if b = 1 then do {
          j \<leftarrow> load indices index;
          v \<leftarrow> load idata index;
          store_at odata j v
        } else Some odata
      })"

text \<open>
  \<open>compact\<close> returns \<open>returnSize\<close> and the host array \<open>odata\<close>. An allocation or a copy
  of a negative number of elements fails.
\<close>

definition compact :: "nat \<Rightarrow> buffer \<Rightarrow> buffer \<Rightarrow> heap \<Rightarrow> (i32 \<times> buffer) option" where
  "compact n odata idata heap =
     (let fullBlocksPerGrid = (n + blockSize - 1) div blockSize;
          arraySize = 2 ^ ilog2ceil n;
          dev_indices = cudaMalloc heap 0 arraySize;
          dev_bool = cudaMalloc heap 1 arraySize;
          dev_idata = cudaMalloc heap 2 arraySize
      in do {
        dev_idata \<leftarrow> cudaMemcpy dev_idata idata n;
        dev_bool \<leftarrow> launch fullBlocksPerGrid
          (\<lambda>index bools. kernMapToBoolean index n bools dev_idata) dev_bool;
        dev_indices \<leftarrow> cudaMemcpy dev_indices dev_bool n;
        dev_indices \<leftarrow> upDownSweep arraySize dev_indices;
        returnSize \<leftarrow> load dev_indices (arraySize - 1);
        lastBool \<leftarrow> load dev_bool (arraySize - 1);
        let returnSize = returnSize + lastBool;
        if sint returnSize < 0 then None
        else do {
          let dev_odata = cudaMalloc heap 3 (nat (sint returnSize));
          dev_odata \<leftarrow> launch fullBlocksPerGrid
            (\<lambda>index out. kernScatterBools index arraySize out dev_idata dev_bool dev_indices)
            dev_odata;
          odata \<leftarrow> cudaMemcpy odata dev_odata (nat (sint returnSize));
          Some (returnSize, odata)
        }
      })"

section \<open>Radix sort\<close>

text \<open>\<open>(v << (31 - i)) >> 31 ? 0 : 1\<close> on a 32-bit \<open>int\<close>.\<close>

definition computeE :: "i32 \<Rightarrow> nat \<Rightarrow> i32" where
  "computeE v i = (if signed_drop_bit 31 (push_bit (31 - i) v) \<noteq> 0 then 0 else 1)"

definition kernComputeE :: "nat \<Rightarrow> nat \<Rightarrow> nat \<Rightarrow> buffer \<Rightarrow> buffer \<Rightarrow> buffer option" where
  "kernComputeE index n i odata idata =
     (if index \<ge> n then Some odata
      else do { v \<leftarrow> load idata index; store odata index (computeE v i) })"

definition kernComputeT :: "nat \<Rightarrow> nat \<Rightarrow> i32 \<Rightarrow> buffer \<Rightarrow> buffer \<Rightarrow> buffer option" where
  "kernComputeT index n f odata idata =
     (if index \<ge> n then Some odata
      else do { v \<leftarrow> load idata index; store odata index (of_nat index - v + f) })"

definition kernComputeD ::
  "nat \<Rightarrow> nat \<Rightarrow> buffer \<Rightarrow> buffer \<Rightarrow> buffer \<Rightarrow> buffer \<Rightarrow> buffer option" where
  "kernComputeD index n d b t f =
     (if index \<ge> n then Some d
      else do {
        bv \<leftarrow> load b index;
        v \<leftarrow> (if bv = 0 then load t index else load f index);
        store d index v
      })"

definition kernScatter :: "nat \<Rightarrow> nat \<Rightarrow> buffer \<Rightarrow> buffer \<Rightarrow> buffer \<Rightarrow> buffer option" where
  "kernScatter index n d odata idata =
     (if index \<ge> n then Some odata
      else do { j \<leftarrow> load d index; v \<leftarrow> load idata index; store_at odata j v })"

record radix_buffers =
  dev_e :: buffer
  dev_f :: buffer
  dev_t :: buffer
  dev_d :: buffer
  dev_idata :: buffer
  dev_odata :: buffer

text \<open>
  Step 1 of pass \<open>i\<close> (lines 229 to 236): the classification array \<open>dev_e\<close> as it is
  when the copy to \<open>dev_f\<close> and the scan begin.
\<close>

definition radix_classify :: "nat \<Rightarrow> nat \<Rightarrow> radix_buffers \<Rightarrow> buffer option" where
  "radix_classify n i s =
     (let fullBlocksPerGrid = (n + blockSize - 1) div blockSize;
          arraySize = 2 ^ ilog2ceil n
      in do {
        e \<leftarrow> launch fullBlocksPerGrid
          (\<lambda>index out. kernComputeE index n i out (dev_idata s)) (dev_e s);
        if arraySize > n then store e (arraySize - 1) 0 else Some e
      })"

text \<open>The body of the loop over the 32 bits (lines 229 to 268).\<close>

definition radix_pass :: "nat \<Rightarrow> nat \<Rightarrow> radix_buffers \<Rightarrow> radix_buffers option" where
  "radix_pass n i s =
     (let fullBlocksPerGrid = (n + blockSize - 1) div blockSize;
          arraySize = 2 ^ ilog2ceil n
      in do {
        e \<leftarrow> radix_classify n i s;
        f \<leftarrow> cudaMemcpy (dev_f s) e arraySize;
        f \<leftarrow> upDownSweep arraySize f;
        totalFalse \<leftarrow> load e (arraySize - 1);
        lastF \<leftarrow> load f (arraySize - 1);
        let totalFalse = totalFalse + lastF;
        t \<leftarrow> launch fullBlocksPerGrid
          (\<lambda>index out. kernComputeT index arraySize totalFalse out f) (dev_t s);
        d \<leftarrow> launch fullBlocksPerGrid
          (\<lambda>index out. kernComputeD index arraySize out e t f) (dev_d s);
        out \<leftarrow> launch fullBlocksPerGrid
          (\<lambda>index out. kernScatter index arraySize d out (dev_idata s)) (dev_odata s);
        inp \<leftarrow> cudaMemcpy (dev_idata s) out arraySize;
        Some \<lparr>dev_e = e, dev_f = f, dev_t = t, dev_d = d, dev_idata = inp, dev_odata = out\<rparr>
      })"

text \<open>Lines 201 to 223 of \<open>radixSort\<close>: the six allocations and the copy of the input.\<close>

definition radix_init :: "nat \<Rightarrow> buffer \<Rightarrow> heap \<Rightarrow> radix_buffers option" where
  "radix_init n idata heap =
     (let arraySize = 2 ^ ilog2ceil n
      in do {
        inp \<leftarrow> cudaMemcpy (cudaMalloc heap 4 arraySize) idata n;
        Some \<lparr>dev_e = cudaMalloc heap 0 arraySize, dev_f = cudaMalloc heap 1 arraySize,
              dev_t = cudaMalloc heap 2 arraySize, dev_d = cudaMalloc heap 3 arraySize,
              dev_idata = inp, dev_odata = cudaMalloc heap 5 arraySize\<rparr>
      })"

text \<open>Lines 201 to 270: the device buffers after the 32 passes.\<close>

definition radixSort_device :: "nat \<Rightarrow> buffer \<Rightarrow> heap \<Rightarrow> radix_buffers option" where
  "radixSort_device n idata heap =
     do {
       s \<leftarrow> radix_init n idata heap;
       steps [0..<32] (radix_pass n) s
     }"

definition radixSort :: "nat \<Rightarrow> buffer \<Rightarrow> buffer \<Rightarrow> heap \<Rightarrow> buffer option" where
  "radixSort n odata idata heap =
     do {
       s \<leftarrow> radixSort_device n idata heap;
       cudaMemcpy odata (dev_odata s) (2 ^ ilog2ceil n)
     }"

section \<open>Reference functions\<close>

text \<open>
  What one launch of \<open>kernUpSweep\<close> and of \<open>kernDownSweep\<close> at level \<open>d\<close> does to a
  whole buffer, and the composition of the levels. They are proved equal to the launches
  below and serve to reason about the two loops of \<open>upDownSweep\<close>.
\<close>

definition up_level :: "nat \<Rightarrow> buffer \<Rightarrow> buffer" where
  "up_level d x =
     map (\<lambda>j. if 2 ^ (d + 1) dvd (j + 1) then x ! j + x ! (j - 2 ^ d) else x ! j) [0..<length x]"

definition down_level :: "nat \<Rightarrow> buffer \<Rightarrow> buffer" where
  "down_level d x =
     map (\<lambda>j. if 2 ^ (d + 1) dvd (j + 1) then x ! j + x ! (j - 2 ^ d)
              else if 2 ^ (d + 1) dvd (j + 1 + 2 ^ d) then x ! (j + 2 ^ d)
              else x ! j) [0..<length x]"

definition ups :: "nat \<Rightarrow> buffer \<Rightarrow> buffer" where
  "ups k x = fold up_level [0..<k] x"

definition downs :: "nat \<Rightarrow> buffer \<Rightarrow> buffer" where
  "downs k x = fold down_level (rev [0..<k]) x"

text \<open>The predicate of the compaction and the elements it keeps.\<close>

definition flag :: "i32 \<Rightarrow> i32" where
  "flag v = (if v \<noteq> 0 then 1 else 0)"

abbreviation nonzeros :: "buffer \<Rightarrow> buffer" where
  "nonzeros xs \<equiv> filter (\<lambda>v. v \<noteq> 0) xs"

text \<open>
  One pass of the radix sort as a function on lists: the stable split on bit \<open>i\<close>, the
  elements whose bit is 0 first. \<open>dest\<close> is the position that the element at \<open>j\<close> takes,
  and \<open>key k\<close> reads the low \<open>k\<close> bits of an element as an unsigned number.
\<close>

definition split_bit :: "nat \<Rightarrow> buffer \<Rightarrow> buffer" where
  "split_bit i xs = filter (\<lambda>v. \<not> bit v i) xs @ filter (\<lambda>v. bit v i) xs"

definition dest :: "nat \<Rightarrow> buffer \<Rightarrow> nat \<Rightarrow> nat" where
  "dest i xs j =
     (if bit (xs ! j) i
      then length (filter (\<lambda>v. \<not> bit v i) xs) + length (filter (\<lambda>v. bit v i) (take j xs))
      else length (filter (\<lambda>v. \<not> bit v i) (take j xs)))"

definition key :: "nat \<Rightarrow> i32 \<Rightarrow> nat" where
  "key k v = take_bit k (unat v)"

text \<open>
  The six device buffers have the padded length, and the pad cells of \<open>dev_e\<close> other
  than the last one (the one that each pass clears) hold 0.
\<close>

definition neutral :: "nat \<Rightarrow> radix_buffers \<Rightarrow> bool" where
  "neutral n s \<longleftrightarrow>
     length (dev_e s) = 2 ^ ilog2ceil n \<and> length (dev_f s) = 2 ^ ilog2ceil n
   \<and> length (dev_t s) = 2 ^ ilog2ceil n \<and> length (dev_d s) = 2 ^ ilog2ceil n
   \<and> length (dev_idata s) = 2 ^ ilog2ceil n \<and> length (dev_odata s) = 2 ^ ilog2ceil n
   \<and> (\<forall>j\<in>{n..<2 ^ ilog2ceil n - 1}. dev_e s ! j = 0)"

text \<open>
  Prior contents of the device for concrete runs: allocation \<open>k\<close> is filled with the
  \<open>k\<close>-th value of the list, and with 0 beyond the list.
\<close>

definition heap_rows :: "i32 list \<Rightarrow> heap" where
  "heap_rows vs k j = (if k < length vs then vs ! k else 0)"

section \<open>The padded length\<close>

lemma paddedLength_exponent [code]:
  "paddedLength n = (if ilog2ceil n < 31 then Some (2 ^ ilog2ceil n) else None)"
proof -
  have "(2::nat) ^ ilog2ceil n < 2 ^ 31 \<longleftrightarrow> ilog2ceil n < 31"
    by (rule power_strict_increasing_iff) simp
  then show ?thesis by (simp only: paddedLength_def)
qed

lemma ilog2ceil_pow2: "ilog2ceil (2 ^ k) = k"
proof (induction k)
  case 0
  show ?case by (simp add: ilog2ceil.simps)
next
  case (Suc k)
  have "(2 ^ Suc k + 1) div 2 = (2::nat) ^ k" by simp
  moreover have "\<not> (2::nat) ^ Suc k \<le> 1"
    using one_le_power [of "2::nat" k] by (simp only: power_Suc) linarith
  ultimately show ?case
    using Suc by (subst ilog2ceil.simps) (simp del: power_Suc)
qed

lemma ilog2ceil_ge: "n \<le> 2 ^ ilog2ceil n"
proof (induction n rule: ilog2ceil.induct)
  case (1 n)
  show ?case
  proof (cases "n \<le> 1")
    case True
    then show ?thesis by (subst ilog2ceil.simps) simp
  next
    case False
    with 1 have "(n + 1) div 2 \<le> 2 ^ ilog2ceil ((n + 1) div 2)" by simp
    then have "n \<le> 2 * 2 ^ ilog2ceil ((n + 1) div 2)" by linarith
    with False show ?thesis by (subst ilog2ceil.simps) simp
  qed
qed

lemma ilog2ceil_least: "n \<le> 2 ^ k \<Longrightarrow> ilog2ceil n \<le> k"
proof (induction n arbitrary: k rule: ilog2ceil.induct)
  case (1 n)
  show ?case
  proof (cases "n \<le> 1")
    case True
    then show ?thesis by (subst ilog2ceil.simps) simp
  next
    case False
    then obtain k' where k: "k = Suc k'"
      using "1.prems" by (cases k) auto
    with "1.prems" have "(n + 1) div 2 \<le> 2 ^ k'" by simp
    with 1 False have "ilog2ceil ((n + 1) div 2) \<le> k'" by simp
    with False k show ?thesis by (subst ilog2ceil.simps) simp
  qed
qed

lemma steps_append: "steps (xs @ ys) body m = Option.bind (steps xs body m) (steps ys body)"
  by (induction xs arbitrary: m) (auto split: Option.bind_splits)

lemma steps_idle: "(\<And>i m. i \<in> set xs \<Longrightarrow> body i m = Some m) \<Longrightarrow> steps xs body m = Some m"
  by (induction xs arbitrary: m) auto

lemma launch_guarded:
  assumes "\<And>i m. n \<le> i \<Longrightarrow> body i m = Some m" and "0 < blocks"
  shows "launch blocks body m = steps [0..<min n (blocks * blockSize)] body m"
proof -
  let ?T = "blocks * blockSize"
  have "[0..<?T] = [0..<min n ?T] @ [min n ?T..<?T]"
    by (metis le_add_diff_inverse min.cobounded2 upt_add_eq_append zero_le)
  moreover have "steps [min n ?T..<?T] body m' = Some m'" for m'
    by (rule steps_idle) (use assms in auto)
  ultimately show ?thesis
    using assms(2) by (simp add: launch_def steps_append split: Option.bind_splits)
qed

lemma launch_threads:
  assumes "\<And>i m. n \<le> i \<Longrightarrow> body i m = Some m"
  shows "launch blocks body m
     = (if blocks = 0 then None else steps [0..<min n (blocks * blockSize)] body m)"
proof (cases "blocks = 0")
  case True
  then show ?thesis by (simp add: launch_def)
next
  case False
  then have "0 < blocks" by simp
  with assms have "launch blocks body m = steps [0..<min n (blocks * blockSize)] body m"
    by (rule launch_guarded)
  with False show ?thesis by simp
qed

lemma grid_covers: "n \<le> ((blockSize + n - 1) div blockSize) * blockSize"
proof -
  have "n \<le> ((128 + n - 1) div 128) * 128" by linarith
  then show ?thesis by (simp add: blockSize_def)
qed

lemma grid_sweep_pos: "0 < n \<Longrightarrow> 0 < (blockSize + n - 1) div blockSize"
  by (simp add: blockSize_def div_greater_zero_iff)

lemma grid_pos: "0 < n \<Longrightarrow> 0 < (n + blockSize - 1) div blockSize"
  by (simp add: blockSize_def div_greater_zero_iff)

lemma launch_kernUpSweep:
  assumes "0 < n"
  shows "launch ((blockSize + n - 1) div blockSize) (\<lambda>index. kernUpSweep index n d) x
     = steps [0..<n] (\<lambda>index. kernUpSweep index n d) x"
proof -
  have "launch ((blockSize + n - 1) div blockSize) (\<lambda>index. kernUpSweep index n d) x
     = steps [0..<min n ((blockSize + n - 1) div blockSize * blockSize)]
         (\<lambda>index. kernUpSweep index n d) x"
  proof (rule launch_guarded)
    show "kernUpSweep i n d m = Some m" if "n \<le> i" for i m
      using that by (simp add: kernUpSweep_def)
    show "0 < (blockSize + n - 1) div blockSize" using assms by (rule grid_sweep_pos)
  qed
  moreover have "min n ((blockSize + n - 1) div blockSize * blockSize) = n"
    using grid_covers [of n] by simp
  ultimately show ?thesis by simp
qed

lemma launch_kernDownSweep:
  assumes "0 < n"
  shows "launch ((blockSize + n - 1) div blockSize) (\<lambda>index. kernDownSweep index n d) x
     = steps [0..<n] (\<lambda>index. kernDownSweep index n d) x"
proof -
  have "launch ((blockSize + n - 1) div blockSize) (\<lambda>index. kernDownSweep index n d) x
     = steps [0..<min n ((blockSize + n - 1) div blockSize * blockSize)]
         (\<lambda>index. kernDownSweep index n d) x"
  proof (rule launch_guarded)
    show "kernDownSweep i n d m = Some m" if "n \<le> i" for i m
      using that by (simp add: kernDownSweep_def)
    show "0 < (blockSize + n - 1) div blockSize" using assms by (rule grid_sweep_pos)
  qed
  moreover have "min n ((blockSize + n - 1) div blockSize * blockSize) = n"
    using grid_covers [of n] by simp
  ultimately show ?thesis by simp
qed


section \<open>One level of a sweep\<close>

lemma dvd_step: "(P::nat) dvd t \<Longrightarrow> P dvd n \<Longrightarrow> t < n \<Longrightarrow> t + P \<le> n"
proof -
  assume "P dvd t" "P dvd n" "t < n"
  then obtain a b where ab: "t = P * a" "n = P * b" by (auto elim!: dvdE)
  with \<open>t < n\<close> have "a < b" by (metis mult_less_cancel1)
  then have "P * (a + 1) \<le> P * b" by (intro mult_le_mono2) simp
  with ab show ?thesis by (simp add: algebra_simps)
qed

lemma not_dvd_half: "0 < (h::nat) \<Longrightarrow> 2 * h dvd t \<Longrightarrow> \<not> 2 * h dvd (t + h)"
proof
  assume h: "0 < h" and "2 * h dvd t" "2 * h dvd (t + h)"
  then have "2 * h dvd h" by (simp add: dvd_add_right_iff)
  with h have "2 * h \<le> h" by (intro dvd_imp_le) auto
  with h show False by simp
qed

lemma up_partial:
  assumes len: "length x = n" and dv: "2 ^ (d + 1) dvd n" and t: "t \<le> n"
  shows "steps [0..<t] (\<lambda>i. kernUpSweep i n d) x =
    Some (map (\<lambda>j. if 2 ^ (d + 1) dvd (j + 1) \<and> j + 1 < t + 2 ^ (d + 1)
                   then x ! j + x ! (j - 2 ^ d) else x ! j) [0..<n])"
  using t
proof (induction t)
  case 0
  have nc: "(2 ^ (d + 1) dvd (j + 1) \<and> j + 1 < 0 + 2 ^ (d + 1)) = False" for j :: nat
    by (auto dest: dvd_imp_le)
  have "map (\<lambda>j. if 2 ^ (d + 1) dvd (j + 1) \<and> j + 1 < 0 + 2 ^ (d + 1)
                   then x ! j + x ! (j - 2 ^ d) else x ! j) [0..<n] = map (\<lambda>j. x ! j) [0..<n]"
    by (simp only: nc if_False)
  also have "\<dots> = x" using len map_nth [of x] by simp
  finally show ?case by simp
next
  case (Suc t)
  define P :: nat where "P = 2 ^ (d + 1)"
  define h :: nat where "h = 2 ^ d"
  have Ph: "P = 2 * h" and h: "0 < h" by (simp_all add: P_def h_def)
  define st where "st = map (\<lambda>j. if P dvd (j + 1) \<and> j + 1 < t + P
                   then x ! j + x ! (j - h) else x ! j) [0..<n]"
  from Suc have tn: "t < n" and IH: "steps [0..<t] (\<lambda>i. kernUpSweep i n d) x = Some st"
    by (simp_all add: st_def P_def h_def)
  have lst: "length st = n" by (simp add: st_def)
  have kern: "kernUpSweep t n d st =
      (if P dvd t then
         Option.bind (load st (t + P - 1)) (\<lambda>a.
         Option.bind (load st (t + h - 1)) (\<lambda>b. store st (t + P - 1) (a + b)))
       else Some st)"
    using tn by (simp add: kernUpSweep_def P_def h_def mod_eq_0_iff_dvd)
  have "kernUpSweep t n d st = Some (map (\<lambda>j. if P dvd (j + 1) \<and> j + 1 < Suc t + P
                   then x ! j + x ! (j - h) else x ! j) [0..<n])"
  proof (cases "P dvd t")
    case True
    with dv tn have le: "t + P \<le> n" by (auto simp: P_def intro: dvd_step)
    have nd: "\<not> P dvd (t + h)" using True h Ph not_dvd_half by blast
    have r1: "st ! (t + P - 1) = x ! (t + P - 1)"
      using le h Ph by (simp add: st_def)
    have r2: "st ! (t + h - 1) = x ! (t + h - 1)"
      using le h Ph nd by (simp add: st_def)
    have "st[t + P - 1 := x ! (t + P - 1) + x ! (t + h - 1)] =
         map (\<lambda>j. if P dvd (j + 1) \<and> j + 1 < Suc t + P
                   then x ! j + x ! (j - h) else x ! j) [0..<n]"
    proof (rule nth_equalityI)
      show "length (st[t + P - 1 := x ! (t + P - 1) + x ! (t + h - 1)]) =
        length (map (\<lambda>j. if P dvd (j + 1) \<and> j + 1 < Suc t + P
                   then x ! j + x ! (j - h) else x ! j) [0..<n])"
        by (simp add: lst)
    next
      fix j assume "j < length (st[t + P - 1 := x ! (t + P - 1) + x ! (t + h - 1)])"
      then have jn: "j < n" by (simp add: lst)
      show "st[t + P - 1 := x ! (t + P - 1) + x ! (t + h - 1)] ! j =
        map (\<lambda>j. if P dvd (j + 1) \<and> j + 1 < Suc t + P
                   then x ! j + x ! (j - h) else x ! j) [0..<n] ! j"
      proof (cases "j = t + P - 1")
        case True
        have "P dvd (t + P)" using \<open>P dvd t\<close> by simp
        moreover have "t + P - 1 - h = t + h - 1" using Ph h by simp
        moreover have "t + P - 1 + 1 = t + P" using Ph h by simp
        ultimately show ?thesis using True jn lst by simp
      next
        case False
        then have "j + 1 < Suc t + P \<longleftrightarrow> j + 1 < t + P" using Ph h by auto
        with False jn show ?thesis by (simp add: lst) (simp add: st_def)
      qed
    qed
    moreover have "t + P - 1 < n" "t + h - 1 < n" using le h Ph by simp_all
    ultimately show ?thesis
      using True r1 r2 lst by (simp add: kern load_def store_def)
  next
    case False
    have "(P dvd (j + 1) \<and> j + 1 < Suc t + P) \<longleftrightarrow> (P dvd (j + 1) \<and> j + 1 < t + P)" for j
    proof -
      have "j + 1 = t + P \<Longrightarrow> P dvd (j + 1) \<Longrightarrow> P dvd t"
        by (metis dvd_add_left_iff dvd_refl)
      with False show ?thesis by (auto simp: less_Suc_eq)
    qed
    then have "st = map (\<lambda>j. if P dvd (j + 1) \<and> j + 1 < Suc t + P
                   then x ! j + x ! (j - h) else x ! j) [0..<n]"
      unfolding st_def by simp
    with False kern show ?thesis
      by simp
  qed
  with IH show ?case
    by (simp add: steps_append P_def h_def del: power_Suc)
qed


lemma down_partial:
  assumes len: "length x = n" and dv: "2 ^ (d + 1) dvd n" and t: "t \<le> n"
  shows "steps [0..<t] (\<lambda>i. kernDownSweep i n d) x =
    Some (map (\<lambda>j. if 2 ^ (d + 1) dvd (j + 1) \<and> j + 1 < t + 2 ^ (d + 1)
                   then x ! j + x ! (j - 2 ^ d)
                   else if 2 ^ (d + 1) dvd (j + 1 + 2 ^ d) \<and> j + 1 + 2 ^ d < t + 2 ^ (d + 1)
                   then x ! (j + 2 ^ d) else x ! j) [0..<n])"
  using t
proof (induction t)
  case 0
  have nc: "(2 ^ (d + 1) dvd (j + 1) \<and> j + 1 < 0 + 2 ^ (d + 1)) = False"
    "(2 ^ (d + 1) dvd (j + 1 + 2 ^ d) \<and> j + 1 + 2 ^ d < 0 + 2 ^ (d + 1)) = False" for j :: nat
    by (auto dest: dvd_imp_le)
  have "map (\<lambda>j. if 2 ^ (d + 1) dvd (j + 1) \<and> j + 1 < 0 + 2 ^ (d + 1)
                   then x ! j + x ! (j - 2 ^ d)
                   else if 2 ^ (d + 1) dvd (j + 1 + 2 ^ d) \<and> j + 1 + 2 ^ d < 0 + 2 ^ (d + 1)
                   then x ! (j + 2 ^ d) else x ! j) [0..<n] = map (\<lambda>j. x ! j) [0..<n]"
    by (simp only: nc if_False)
  also have "\<dots> = x" using len map_nth [of x] by simp
  finally show ?case by simp
next
  case (Suc t)
  define P :: nat where "P = 2 ^ (d + 1)"
  define h :: nat where "h = 2 ^ d"
  have Ph: "P = 2 * h" and h: "0 < h" by (simp_all add: P_def h_def)
  define F where "F = (\<lambda>t j. if P dvd (j + 1) \<and> j + 1 < t + P then x ! j + x ! (j - h)
                   else if P dvd (j + 1 + h) \<and> j + 1 + h < t + P then x ! (j + h) else x ! j)"
  define st where "st = map (F t) [0..<n]"
  from Suc have tn: "t < n" and IH: "steps [0..<t] (\<lambda>i. kernDownSweep i n d) x = Some st"
    by (simp_all add: st_def F_def P_def h_def)
  have lst: "length st = n" by (simp add: st_def)
  have kern: "kernDownSweep t n d st =
      (if P dvd t then
         Option.bind (load st (t + h - 1)) (\<lambda>a.
         Option.bind (load st (t + P - 1)) (\<lambda>r.
         Option.bind (store st (t + h - 1) r) (\<lambda>st'.
         Option.bind (load st' (t + P - 1)) (\<lambda>r. store st' (t + P - 1) (r + a)))))
       else Some st)"
    using tn by (simp add: kernDownSweep_def P_def h_def mod_eq_0_iff_dvd)
  have "kernDownSweep t n d st = Some (map (F (Suc t)) [0..<n])"
  proof (cases "P dvd t")
    case True
    with dv tn have le: "t + P \<le> n" by (auto simp: P_def intro: dvd_step)
    have nd: "\<not> P dvd (t + h)" using True h Ph not_dvd_half by blast
    have i: "t + P - 1 < n" "t + h - 1 < n" "t + P - 1 \<noteq> t + h - 1" using le h Ph by simp_all
    have e1: "t + P - 1 + 1 = t + P" "t + h - 1 + 1 = t + h" "t + h - 1 + 1 + h = t + P"
      "t + P - 1 - h = t + h - 1" "t + h - 1 + h = t + P - 1" "t + P - 1 + 1 + h = t + P + h"
      "t + h + h = t + P"
      using h Ph by simp_all
    have c: "\<not> t + P < t + P" "\<not> t + P + h < t + P" "t + P < Suc t + P"
      using Ph by simp_all
    have dP: "P dvd (t + P)" using \<open>P dvd t\<close> by simp
    have "F t (t + P - 1) = x ! (t + P - 1)"
      unfolding F_def e1 using c by (simp only: simp_thms if_False)
    then have r1: "st ! (t + P - 1) = x ! (t + P - 1)"
      using i by (simp add: st_def)
    have "F t (t + h - 1) = x ! (t + h - 1)"
      unfolding F_def e1 using c nd by (simp only: simp_thms if_False)
    then have r2: "st ! (t + h - 1) = x ! (t + h - 1)"
      using i by (simp add: st_def)
    have "st[t + h - 1 := x ! (t + P - 1), t + P - 1 := x ! (t + P - 1) + x ! (t + h - 1)] =
         map (F (Suc t)) [0..<n]"
    proof (rule nth_equalityI)
      show "length (st[t + h - 1 := x ! (t + P - 1),
               t + P - 1 := x ! (t + P - 1) + x ! (t + h - 1)]) = length (map (F (Suc t)) [0..<n])"
        by (simp add: lst)
    next
      fix j assume "j < length (st[t + h - 1 := x ! (t + P - 1),
               t + P - 1 := x ! (t + P - 1) + x ! (t + h - 1)])"
      then have jn: "j < n" by (simp add: lst)
      consider "j = t + P - 1" | "j = t + h - 1" | "j \<noteq> t + P - 1" "j \<noteq> t + h - 1" by blast
      then show "st[t + h - 1 := x ! (t + P - 1),
               t + P - 1 := x ! (t + P - 1) + x ! (t + h - 1)] ! j = map (F (Suc t)) [0..<n] ! j"
      proof cases
        case 1
        have "F (Suc t) (t + P - 1) = x ! (t + P - 1) + x ! (t + h - 1)"
          unfolding F_def e1 using c dP by (simp only: simp_thms if_True)
        with 1 jn lst show ?thesis by simp
      next
        case 2
        have "F (Suc t) (t + h - 1) = x ! (t + P - 1)"
          unfolding F_def e1 using c dP nd by (simp only: simp_thms if_True if_False)
        with 2 jn lst i show ?thesis by simp
      next
        case 3
        have "j + 1 < Suc t + P \<longleftrightarrow> j + 1 < t + P" using 3 Ph h by auto
        moreover have "j + 1 + h < Suc t + P \<longleftrightarrow> j + 1 + h < t + P" using 3 Ph h by auto
        ultimately have "F (Suc t) j = F t j" by (simp add: F_def)
        with 3 jn show ?thesis by (simp add: lst) (simp add: st_def)
      qed
    qed
    then show ?thesis
      using True r1 r2 lst i by (simp add: kern load_def store_def)
  next
    case False
    have "F (Suc t) j = F t j" for j
    proof -
      have "j + 1 = t + P \<Longrightarrow> P dvd (j + 1) \<Longrightarrow> P dvd t"
        by (metis dvd_add_left_iff dvd_refl)
      moreover have "j + 1 + h = t + P \<Longrightarrow> P dvd (j + 1 + h) \<Longrightarrow> P dvd t"
        by (metis dvd_add_left_iff dvd_refl)
      ultimately have "(P dvd (j + 1) \<and> j + 1 < Suc t + P) \<longleftrightarrow> (P dvd (j + 1) \<and> j + 1 < t + P)"
        "(P dvd (j + 1 + h) \<and> j + 1 + h < Suc t + P) \<longleftrightarrow> (P dvd (j + 1 + h) \<and> j + 1 + h < t + P)"
        using False by (auto simp: less_Suc_eq)
      then show ?thesis unfolding F_def by presburger
    qed
    then have "st = map (F (Suc t)) [0..<n]"
      unfolding st_def by simp
    with False kern show ?thesis
      by simp
  qed
  with IH show ?case
    by (simp add: steps_append P_def h_def F_def del: power_Suc)
qed

lemma level_bounds:
  assumes "j < (n::nat)"
  shows "j + 1 < n + 2 ^ (d + 1)" and "j + 1 + 2 ^ d < n + 2 ^ (d + 1)"
proof -
  have p: "(2::nat) ^ (d + 1) = 2 ^ d + 2 ^ d" by simp
  have z: "0 < (2::nat) ^ d" by simp
  show "j + 1 < n + 2 ^ (d + 1)" and "j + 1 + 2 ^ d < n + 2 ^ (d + 1)"
    using assms z unfolding p by linarith+
qed

lemma up_level_launch:
  assumes len: "length x = n" and dv: "2 ^ (d + 1) dvd n" and pos: "0 < n"
  shows "launch ((blockSize + n - 1) div blockSize) (\<lambda>index. kernUpSweep index n d) x
    = Some (up_level d x)"
proof -
  have "map (\<lambda>j. if 2 ^ (d + 1) dvd (j + 1) \<and> j + 1 < n + 2 ^ (d + 1)
                   then x ! j + x ! (j - 2 ^ d) else x ! j) [0..<n] = up_level d x"
    unfolding up_level_def len
  proof (rule map_cong [OF refl])
    fix j assume "j \<in> set [0..<n]"
    then have "j < n" by simp
    from level_bounds [OF this, of d]
    show "(if 2 ^ (d + 1) dvd (j + 1) \<and> j + 1 < n + 2 ^ (d + 1)
           then x ! j + x ! (j - 2 ^ d) else x ! j)
        = (if 2 ^ (d + 1) dvd (j + 1) then x ! j + x ! (j - 2 ^ d) else x ! j)"
      by (simp only: simp_thms)
  qed
  then show ?thesis
    using up_partial [OF len dv order_refl] by (simp only: launch_kernUpSweep [OF pos])
qed

lemma down_level_launch:
  assumes len: "length x = n" and dv: "2 ^ (d + 1) dvd n" and pos: "0 < n"
  shows "launch ((blockSize + n - 1) div blockSize) (\<lambda>index. kernDownSweep index n d) x
    = Some (down_level d x)"
proof -
  have "map (\<lambda>j. if 2 ^ (d + 1) dvd (j + 1) \<and> j + 1 < n + 2 ^ (d + 1)
                   then x ! j + x ! (j - 2 ^ d)
                   else if 2 ^ (d + 1) dvd (j + 1 + 2 ^ d) \<and> j + 1 + 2 ^ d < n + 2 ^ (d + 1)
                   then x ! (j + 2 ^ d) else x ! j) [0..<n] = down_level d x"
    unfolding down_level_def len
  proof (rule map_cong [OF refl])
    fix j assume "j \<in> set [0..<n]"
    then have "j < n" by simp
    from level_bounds [OF this, of d]
    show "(if 2 ^ (d + 1) dvd (j + 1) \<and> j + 1 < n + 2 ^ (d + 1)
           then x ! j + x ! (j - 2 ^ d)
           else if 2 ^ (d + 1) dvd (j + 1 + 2 ^ d) \<and> j + 1 + 2 ^ d < n + 2 ^ (d + 1)
           then x ! (j + 2 ^ d) else x ! j)
        = (if 2 ^ (d + 1) dvd (j + 1) then x ! j + x ! (j - 2 ^ d)
           else if 2 ^ (d + 1) dvd (j + 1 + 2 ^ d) then x ! (j + 2 ^ d) else x ! j)"
      by (simp only: simp_thms)
  qed
  then show ?thesis
    using down_partial [OF len dv order_refl] by (simp only: launch_kernDownSweep [OF pos])
qed


section \<open>The levels on the two halves of a buffer\<close>

lemma length_up_level [simp]: "length (up_level d x) = length x"
  by (simp add: up_level_def)

lemma length_down_level [simp]: "length (down_level d x) = length x"
  by (simp add: down_level_def)

lemma ups_0 [simp]: "ups 0 x = x"
  by (simp add: ups_def)

lemma ups_Suc: "ups (Suc k) x = up_level k (ups k x)"
  by (simp add: ups_def)

lemma downs_0 [simp]: "downs 0 x = x"
  by (simp add: downs_def)

lemma downs_Suc: "downs (Suc k) x = downs k (down_level k x)"
  by (simp add: downs_def)

lemma length_ups [simp]: "length (ups k x) = length x"
  by (induction k) (simp_all add: ups_Suc)

lemma length_downs [simp]: "length (downs k x) = length x"
  by (induction k arbitrary: x) (simp_all add: downs_Suc)

lemma up_level_append:
  assumes dv: "2 ^ (d + 1) dvd length xs"
  shows "up_level d (xs @ ys) = up_level d xs @ up_level d ys"
proof (rule nth_equalityI)
  show "length (up_level d (xs @ ys)) = length (up_level d xs @ up_level d ys)" by simp
next
  fix j assume "j < length (up_level d (xs @ ys))"
  then have j: "j < length xs + length ys" by simp
  define P :: nat where "P = 2 ^ (d + 1)"
  define h :: nat where "h = 2 ^ d"
  have Ph: "P = 2 * h" and h: "0 < h" by (simp_all add: P_def h_def)
  have dv': "P dvd length xs" using dv by (simp add: P_def)
  show "up_level d (xs @ ys) ! j = (up_level d xs @ up_level d ys) ! j"
  proof (cases "j < length xs")
    case True
    have "(xs @ ys) ! (j - h) = xs ! (j - h)" "(xs @ ys) ! j = xs ! j"
      using True by (simp_all add: nth_append less_imp_diff_less)
    with True j show ?thesis
      unfolding up_level_def P_def [symmetric] h_def [symmetric] by (simp add: nth_append)
  next
    case False
    define i where "i = j - length xs"
    have ji: "j = length xs + i" and i: "i < length ys" using False j by (simp_all add: i_def)
    have dd: "P dvd (j + 1) \<longleftrightarrow> P dvd (i + 1)"
      using dvd_add_right_iff [OF dv', of "i + 1"] by (simp only: ji add.assoc)
    have "(xs @ ys) ! (j - h) = ys ! (i - h)" if "P dvd (i + 1)"
    proof -
      from that have "P \<le> i + 1" by (intro dvd_imp_le) auto
      then have "h \<le> i" using Ph h by simp
      then have "j - h = length xs + (i - h)" using ji by simp
      then show ?thesis by (simp only: nth_append_length_plus)
    qed
    moreover have "(xs @ ys) ! j = ys ! i" by (simp add: ji nth_append)
    ultimately show ?thesis using False i j dd
      unfolding up_level_def P_def [symmetric] h_def [symmetric]
      by (simp add: nth_append i_def [symmetric])
  qed
qed


lemma down_level_append:
  assumes dv: "2 ^ (d + 1) dvd length xs"
  shows "down_level d (xs @ ys) = down_level d xs @ down_level d ys"
proof (rule nth_equalityI)
  show "length (down_level d (xs @ ys)) = length (down_level d xs @ down_level d ys)" by simp
next
  fix j assume "j < length (down_level d (xs @ ys))"
  then have j: "j < length xs + length ys" by simp
  define P :: nat where "P = 2 ^ (d + 1)"
  define h :: nat where "h = 2 ^ d"
  have Ph: "P = 2 * h" and h: "0 < h" by (simp_all add: P_def h_def)
  have dv': "P dvd length xs" using dv by (simp add: P_def)
  show "down_level d (xs @ ys) ! j = (down_level d xs @ down_level d ys) ! j"
  proof (cases "j < length xs")
    case True
    have "(xs @ ys) ! (j - h) = xs ! (j - h)" "(xs @ ys) ! j = xs ! j"
      using True by (simp_all add: nth_append less_imp_diff_less)
    moreover have "(xs @ ys) ! (j + h) = xs ! (j + h)" if "P dvd (j + 1 + h)"
    proof -
      have "j + h < length xs"
      proof (rule ccontr)
        assume "\<not> j + h < length xs"
        then have b: "length xs < j + 1 + h" "j + 1 + h - length xs \<le> h" using True by simp_all
        have "P dvd (j + 1 + h - length xs)" using that dv' by (rule dvd_diff_nat)
        then have "P \<le> j + 1 + h - length xs" using b by (intro dvd_imp_le) simp_all
        with b Ph h show False by simp
      qed
      then show ?thesis by (simp add: nth_append)
    qed
    ultimately show ?thesis using True j
      unfolding down_level_def P_def [symmetric] h_def [symmetric] by (simp add: nth_append)
  next
    case False
    define i where "i = j - length xs"
    have ji: "j = length xs + i" and i: "i < length ys" using False j by (simp_all add: i_def)
    have dd: "P dvd (j + 1) \<longleftrightarrow> P dvd (i + 1)"
      using dvd_add_right_iff [OF dv', of "i + 1"] by (simp only: ji add.assoc)
    have dd2: "P dvd (j + 1 + h) \<longleftrightarrow> P dvd (i + 1 + h)"
      using dvd_add_right_iff [OF dv', of "i + 1 + h"] by (simp only: ji add.assoc)
    have "(xs @ ys) ! (j - h) = ys ! (i - h)" if "P dvd (i + 1)"
    proof -
      from that have "P \<le> i + 1" by (intro dvd_imp_le) auto
      then have "h \<le> i" using Ph h by simp
      then have "j - h = length xs + (i - h)" using ji by simp
      then show ?thesis by (simp only: nth_append_length_plus)
    qed
    moreover have "(xs @ ys) ! j = ys ! i" by (simp add: ji nth_append)
    moreover have "(xs @ ys) ! (j + h) = ys ! (i + h)"
      by (simp only: ji add.assoc nth_append_length_plus)
    ultimately show ?thesis using False i j dd dd2
      unfolding down_level_def P_def [symmetric] h_def [symmetric]
      by (simp add: nth_append i_def [symmetric])
  qed
qed

lemma pow2_dvd: "d < k \<Longrightarrow> (2::nat) ^ (d + 1) dvd 2 ^ k"
  by (intro le_imp_power_dvd) simp

lemma ups_append:
  assumes "length xs = 2 ^ k" "j \<le> k"
  shows "ups j (xs @ ys) = ups j xs @ ups j ys"
  using assms(2)
proof (induction j)
  case 0
  show ?case by simp
next
  case (Suc j)
  then have "j < k" by simp
  then have "2 ^ (j + 1) dvd length (ups j xs)"
    using assms(1) pow2_dvd [of j k] by (simp only: length_ups)
  then have "up_level j (ups j xs @ ups j ys) = up_level j (ups j xs) @ up_level j (ups j ys)"
    by (rule up_level_append)
  with Suc show ?case by (simp add: ups_Suc)
qed

lemma downs_append:
  assumes "length xs = 2 ^ k" "j \<le> k"
  shows "downs j (xs @ ys) = downs j xs @ downs j ys"
  using assms
proof (induction j arbitrary: xs ys)
  case 0
  show ?case by simp
next
  case (Suc j)
  then have "j < k" by simp
  then have "2 ^ (j + 1) dvd length xs"
    using Suc.prems(1) pow2_dvd [of j k] by simp
  then have "down_level j (xs @ ys) = down_level j xs @ down_level j ys"
    by (rule down_level_append)
  moreover have "downs j (down_level j xs @ down_level j ys)
      = downs j (down_level j xs) @ downs j (down_level j ys)"
    using Suc.prems by (intro Suc.IH) simp_all
  ultimately show ?case by (simp add: downs_Suc)
qed


lemma dvd_top:
  assumes "j < 2 * h" "0 < (h::nat)"
  shows "2 * h dvd (j + 1) \<longleftrightarrow> j = 2 * h - 1" and "2 * h dvd (j + 1 + h) \<longleftrightarrow> j = h - 1"
proof -
  show "2 * h dvd (j + 1) \<longleftrightarrow> j = 2 * h - 1"
  proof
    assume "2 * h dvd (j + 1)"
    then have "2 * h \<le> j + 1" by (intro dvd_imp_le) simp_all
    with assms show "j = 2 * h - 1" by simp
  next
    assume "j = 2 * h - 1"
    with assms show "2 * h dvd (j + 1)" by simp
  qed
  show "2 * h dvd (j + 1 + h) \<longleftrightarrow> j = h - 1"
  proof
    assume "2 * h dvd (j + 1 + h)"
    then obtain q where q: "j + 1 + h = 2 * h * q" by (auto elim: dvdE)
    have "q = 1"
    proof (rule ccontr)
      assume "q \<noteq> 1"
      then consider "q = 0" | "2 \<le> q" by linarith
      then show False
      proof cases
        case 1 with q show False by simp
      next
        case 2
        then have "2 * h * 2 \<le> 2 * h * q" by (intro mult_le_mono2)
        with q assms show False by simp
      qed
    qed
    with q assms show "j = h - 1" by simp
  next
    assume "j = h - 1"
    with assms have "j + 1 + h = 2 * h" by simp
    then show "2 * h dvd (j + 1 + h)" by (simp only: dvd_refl)
  qed
qed

lemma up_level_top:
  assumes lx: "length xs = 2 ^ k" and ly: "length ys = 2 ^ k"
  shows "up_level k (xs @ ys) = xs @ ys[2 ^ k - 1 := ys ! (2 ^ k - 1) + xs ! (2 ^ k - 1)]"
proof (rule nth_equalityI)
  show "length (up_level k (xs @ ys))
      = length (xs @ ys[2 ^ k - 1 := ys ! (2 ^ k - 1) + xs ! (2 ^ k - 1)])" by simp
next
  define h :: nat where "h = 2 ^ k"
  have h: "0 < h" and P: "2 ^ (k + 1) = 2 * h" by (simp_all add: h_def)
  fix j assume "j < length (up_level k (xs @ ys))"
  then have j: "j < 2 * h" using lx ly by (simp add: h_def)
  have len: "length xs = h" "length ys = h" using lx ly by (simp_all add: h_def)
  have e: "up_level k (xs @ ys) ! j =
      (if j = 2 * h - 1 then (xs @ ys) ! j + (xs @ ys) ! (j - h) else (xs @ ys) ! j)"
    unfolding up_level_def P h_def [symmetric] using j len dvd_top(1) [OF j h] by simp
  show "up_level k (xs @ ys) ! j = (xs @ ys[2 ^ k - 1 := ys ! (2 ^ k - 1) + xs ! (2 ^ k - 1)]) ! j"
  proof (cases "j = 2 * h - 1")
    case True
    then have a: "j = length xs + (h - 1)" "j - h = h - 1" using h len by simp_all
    have "(xs @ ys) ! j = ys ! (h - 1)"
      unfolding a by (rule nth_append_length_plus)
    moreover have "(xs @ ys) ! (j - h) = xs ! (h - 1)"
      unfolding a using h len by (simp add: nth_append)
    moreover have "(xs @ ys[h - 1 := ys ! (h - 1) + xs ! (h - 1)]) ! j
        = ys ! (h - 1) + xs ! (h - 1)"
      unfolding a nth_append_length_plus using h len by simp
    ultimately show ?thesis using True unfolding e h_def [symmetric] by simp
  next
    case False
    then have "(xs @ ys[h - 1 := ys ! (h - 1) + xs ! (h - 1)]) ! j = (xs @ ys) ! j"
      using j len h by (auto simp: nth_append nth_list_update)
    with False show ?thesis unfolding e h_def [symmetric] by simp
  qed
qed

lemma down_level_top:
  assumes lx: "length xs = 2 ^ k" and ly: "length ys = 2 ^ k"
  shows "down_level k (xs @ ys) =
     xs[2 ^ k - 1 := ys ! (2 ^ k - 1)] @ ys[2 ^ k - 1 := ys ! (2 ^ k - 1) + xs ! (2 ^ k - 1)]"
proof (rule nth_equalityI)
  show "length (down_level k (xs @ ys)) = length (xs[2 ^ k - 1 := ys ! (2 ^ k - 1)] @
      ys[2 ^ k - 1 := ys ! (2 ^ k - 1) + xs ! (2 ^ k - 1)])" by simp
next
  define h :: nat where "h = 2 ^ k"
  have h: "0 < h" and P: "2 ^ (k + 1) = 2 * h" by (simp_all add: h_def)
  fix j assume "j < length (down_level k (xs @ ys))"
  then have j: "j < 2 * h" using lx ly by (simp add: h_def)
  have len: "length xs = h" "length ys = h" using lx ly by (simp_all add: h_def)
  have e: "down_level k (xs @ ys) ! j =
      (if j = 2 * h - 1 then (xs @ ys) ! j + (xs @ ys) ! (j - h)
       else if j = h - 1 then (xs @ ys) ! (j + h) else (xs @ ys) ! j)"
    unfolding down_level_def P h_def [symmetric]
    using j len dvd_top(1) [OF j h] dvd_top(2) [OF j h] by simp
  consider "j = 2 * h - 1" | "j = h - 1" | "j \<noteq> 2 * h - 1" "j \<noteq> h - 1" by blast
  then show "down_level k (xs @ ys) ! j = (xs[2 ^ k - 1 := ys ! (2 ^ k - 1)] @
      ys[2 ^ k - 1 := ys ! (2 ^ k - 1) + xs ! (2 ^ k - 1)]) ! j"
  proof cases
    case 1
    then have a: "j = length xs + (h - 1)" "j - h = h - 1" using h len by simp_all
    have a': "j = length (xs[h - 1 := ys ! (h - 1)]) + (h - 1)" using a by simp
    have "(xs @ ys) ! j = ys ! (h - 1)"
      unfolding a by (rule nth_append_length_plus)
    moreover have "(xs @ ys) ! (j - h) = xs ! (h - 1)"
      unfolding a using h len by (simp add: nth_append)
    moreover have "(xs[h - 1 := ys ! (h - 1)] @ ys[h - 1 := ys ! (h - 1) + xs ! (h - 1)]) ! j
         = ys ! (h - 1) + xs ! (h - 1)"
      by (subst a', subst nth_append_length_plus) (use h len in simp)
    ultimately show ?thesis using 1 unfolding e h_def [symmetric] by simp
  next
    case 2
    then have a: "j + h = length xs + (h - 1)" and ne: "j \<noteq> 2 * h - 1"
      using h len by simp_all
    have "(xs @ ys) ! (j + h) = ys ! (h - 1)"
      unfolding a by (rule nth_append_length_plus)
    moreover have
      "(xs[h - 1 := ys ! (h - 1)] @ ys[h - 1 := ys ! (h - 1) + xs ! (h - 1)]) ! j = ys ! (h - 1)"
      using h len 2 by (simp add: nth_append)
    ultimately show ?thesis using 2 ne unfolding e h_def [symmetric] by simp
  next
    case 3
    then have "(xs[h - 1 := ys ! (h - 1)] @ ys[h - 1 := ys ! (h - 1) + xs ! (h - 1)]) ! j
        = (xs @ ys) ! j"
      using j len h by (auto simp: nth_append nth_list_update)
    with 3 show ?thesis unfolding e h_def [symmetric] by simp
  qed
qed


section \<open>The scan core on a buffer of length a power of two\<close>

lemma split_pow2:
  assumes "length (a::'a list) = 2 ^ Suc k"
  obtains l r where "a = l @ r" "length l = 2 ^ k" "length r = 2 ^ k"
proof
  show "a = take (2 ^ k) a @ drop (2 ^ k) a" by simp
  show "length (take (2 ^ k) a) = 2 ^ k" "length (drop (2 ^ k) a) = 2 ^ k"
    using assms by simp_all
qed

lemma ups_Suc_append:
  assumes "length l = 2 ^ k" "length r = 2 ^ k"
  shows "ups (Suc k) (l @ r)
     = ups k l @ (ups k r)[2 ^ k - 1 := ups k r ! (2 ^ k - 1) + ups k l ! (2 ^ k - 1)]"
proof -
  have "ups (Suc k) (l @ r) = up_level k (ups k l @ ups k r)"
    using assms by (simp add: ups_Suc ups_append [where k = k])
  then show ?thesis using assms by (simp add: up_level_top)
qed

lemma ups_last: "length a = 2 ^ k \<Longrightarrow> ups k a ! (2 ^ k - 1) = sum_list a"
proof (induction k arbitrary: a)
  case 0
  then obtain v where "a = [v]" by (cases a) auto
  then show ?case by simp
next
  case (Suc k)
  then obtain l r where a: "a = l @ r" and l: "length l = 2 ^ k" and r: "length r = 2 ^ k"
    by (elim split_pow2)
  have "(2::nat) ^ Suc k - 1 = length (ups k l) + (2 ^ k - 1)" using l by simp
  then have "ups (Suc k) a ! (2 ^ Suc k - 1)
      = (ups k r)[2 ^ k - 1 := ups k r ! (2 ^ k - 1) + ups k l ! (2 ^ k - 1)] ! (2 ^ k - 1)"
    unfolding a ups_Suc_append [OF l r] by (simp only: nth_append_length_plus)
  also have "\<dots> = ups k r ! (2 ^ k - 1) + ups k l ! (2 ^ k - 1)" using r by simp
  also have "\<dots> = sum_list a" using Suc.IH [OF l] Suc.IH [OF r] a by simp
  finally show ?case .
qed

lemma scan_halves:
  fixes c :: i32
  assumes "length l = h"
  shows "map (\<lambda>i. c + sum_list (take i (l @ r))) [0..<h + h]
     = map (\<lambda>i. c + sum_list (take i l)) [0..<h] @ map (\<lambda>i. c + sum_list l + sum_list (take i r)) [0..<h]"
    (is "?L = ?A @ ?B")
proof -
  have "[0..<h + h] = [0..<h] @ [h..<h + h]"
    by (rule upt_add_eq_append) simp
  then have "[0..<h + h] = [0..<h] @ map (\<lambda>i. i + h) [0..<h]"
    by (simp only: map_add_upt)
  then have "?L = map (\<lambda>i. c + sum_list (take i (l @ r))) [0..<h]
      @ map (\<lambda>i. c + sum_list (take (i + h) (l @ r))) [0..<h]"
    by (simp add: comp_def)
  moreover have "map (\<lambda>i. c + sum_list (take i (l @ r))) [0..<h] = ?A"
    using assms by (intro map_cong refl) simp
  moreover have "map (\<lambda>i. c + sum_list (take (i + h) (l @ r))) [0..<h] = ?B"
    using assms by (intro map_cong refl) (simp add: add.assoc)
  ultimately show ?thesis by simp
qed

lemma downs_scan:
  "length a = 2 ^ k \<Longrightarrow>
   downs k ((ups k a)[2 ^ k - 1 := c]) = map (\<lambda>i. c + sum_list (take i a)) [0..<2 ^ k]"
proof (induction k arbitrary: a c)
  case 0
  then obtain v where "a = [v]" by (cases a) auto
  then show ?case by simp
next
  case (Suc k)
  then obtain l r where a: "a = l @ r" and l: "length l = 2 ^ k" and r: "length r = 2 ^ k"
    by (elim split_pow2)
  define ul where "ul = ups k l"
  define ur where "ur = ups k r"
  have lul: "length ul = 2 ^ k" and lur: "length ur = 2 ^ k" using l r by (simp_all add: ul_def ur_def)
  have sl: "ul ! (2 ^ k - 1) = sum_list l" using ups_last [OF l] by (simp add: ul_def)
  define m :: nat where "m = 2 ^ k - 1"
  have i: "(2::nat) ^ Suc k - 1 = length ul + m" using lul by (simp add: m_def)
  have "(ul @ w)[length ul + m := c] = ul @ w[m := c]" for w
    by (simp add: list_update_append)
  then have "(ups (Suc k) a)[2 ^ Suc k - 1 := c] = ul @ ur[2 ^ k - 1 := c]"
    unfolding a ups_Suc_append [OF l r] ul_def [symmetric] ur_def [symmetric] i
      m_def [symmetric] by simp
  then have "downs (Suc k) ((ups (Suc k) a)[2 ^ Suc k - 1 := c])
      = downs k (down_level k (ul @ ur[2 ^ k - 1 := c]))"
    by (simp add: downs_Suc)
  also have "down_level k (ul @ ur[2 ^ k - 1 := c])
      = ul[2 ^ k - 1 := c] @ ur[2 ^ k - 1 := c + sum_list l]"
    using lul lur sl by (subst down_level_top) simp_all
  also have "downs k (ul[2 ^ k - 1 := c] @ ur[2 ^ k - 1 := c + sum_list l])
      = downs k (ul[2 ^ k - 1 := c]) @ downs k (ur[2 ^ k - 1 := c + sum_list l])"
    using lul by (intro downs_append [where k = k]) simp_all
  also have "downs k (ul[2 ^ k - 1 := c]) = map (\<lambda>i. c + sum_list (take i l)) [0..<2 ^ k]"
    unfolding ul_def by (rule Suc.IH [OF l])
  also have "downs k (ur[2 ^ k - 1 := c + sum_list l])
      = map (\<lambda>i. c + sum_list l + sum_list (take i r)) [0..<2 ^ k]"
    unfolding ur_def by (rule Suc.IH [OF r])
  also have "map (\<lambda>i. c + sum_list (take i l)) [0..<2 ^ k]
        @ map (\<lambda>i. c + sum_list l + sum_list (take i r)) [0..<2 ^ k]
      = map (\<lambda>i. c + sum_list (take i a)) [0..<2 ^ Suc k]"
    using scan_halves [OF l, of c r] by (simp add: a mult_2)
  finally show ?case .
qed

lemma steps_pure:
  assumes "\<And>d m. d \<in> set ds \<Longrightarrow> length m = n \<Longrightarrow> body d m = Some (f d m)"
    and "\<And>d m. length (f d m) = length m"
    and "length m = n"
  shows "steps ds body m = Some (fold f ds m)"
  using assms(1,3)
proof (induction ds arbitrary: m)
  case Nil
  show ?case by simp
next
  case (Cons d ds)
  have "body d m = Some (f d m)" using Cons.prems by simp
  moreover have "steps ds body (f d m) = Some (fold f ds (f d m))"
    using Cons.prems assms(2) by (intro Cons.IH) simp_all
  ultimately show ?case by simp
qed

lemma upSweep_pow2:
  assumes "length x = 2 ^ k"
  shows "upSweep (2 ^ k) x = Some (ups k x)"
  unfolding upSweep_def ups_def ilog2ceil_pow2
proof (rule steps_pure [where n = "2 ^ k"])
  fix d m assume "d \<in> set [0..<k]" and "length (m::buffer) = 2 ^ k"
  then show "launch ((blockSize + 2 ^ k - 1) div blockSize)
      (\<lambda>index. kernUpSweep index (2 ^ k) d) m = Some (up_level d m)"
    by (intro up_level_launch pow2_dvd) simp_all
qed (use assms in simp_all)

lemma downSweep_pow2:
  assumes "length x = 2 ^ k"
  shows "downSweep (2 ^ k) x = Some (downs k x)"
  unfolding downSweep_def downs_def ilog2ceil_pow2
proof (rule steps_pure [where n = "2 ^ k"])
  fix d m assume "d \<in> set (rev [0..<k])" and "length (m::buffer) = 2 ^ k"
  then show "launch ((blockSize + 2 ^ k - 1) div blockSize)
      (\<lambda>index. kernDownSweep index (2 ^ k) d) m = Some (down_level d m)"
    by (intro down_level_launch pow2_dvd) simp_all
qed (use assms in simp_all)

lemma upDownSweep_pow2:
  assumes "length buf = 2 ^ k"
  shows "upDownSweep (2 ^ k) buf = Some (map (\<lambda>i. sum_list (take i buf)) [0..<2 ^ k])"
proof -
  have c: "clearLast (2 ^ k) (ups k buf) = Some ((ups k buf)[2 ^ k - 1 := 0])"
    using assms by (simp add: clearLast_def store_def)
  show ?thesis
    using assms downs_scan [OF assms, of 0]
    by (simp add: upDownSweep_def upSweep_pow2 c downSweep_pow2)
qed

section \<open>The claims\<close>

subsection \<open>Scan core\<close>

text \<open>
  C1. For every buffer of length \<open>2 ^ k\<close>, \<open>upDownSweep\<close> (the up-sweep levels
  \<open>0 .. k - 1\<close>, the overwrite of the last cell with 0, the down-sweep levels
  \<open>k - 1 .. 0\<close>) returns the exclusive prefix sums of the buffer, in 32-bit arithmetic.
  Right after the last up-sweep level the last cell holds the sum of all the elements,
  and the next step stores 0 there rather than adding to it.
\<close>

theorem upDownSweep_exclusive_scan:
  "length buf = 2 ^ k \<Longrightarrow>
     upDownSweep (2 ^ k) buf = Some (map (\<lambda>i. sum_list (take i buf)) [0..<2 ^ k])
   \<and> (\<exists>up. upSweep (2 ^ k) buf = Some up \<and> length up = 2 ^ k
           \<and> up ! (2 ^ k - 1) = sum_list buf
           \<and> clearLast (2 ^ k) up = Some (up[2 ^ k - 1 := 0])
           \<and> downSweep (2 ^ k) (up[2 ^ k - 1 := 0])
               = Some (map (\<lambda>i. sum_list (take i buf)) [0..<2 ^ k]))"
proof -
  assume len: "length buf = 2 ^ k"
  have c: "clearLast (2 ^ k) (ups k buf) = Some ((ups k buf)[2 ^ k - 1 := 0])"
    using len by (simp add: clearLast_def store_def)
  have d: "downSweep (2 ^ k) ((ups k buf)[2 ^ k - 1 := 0])
      = Some (map (\<lambda>i. sum_list (take i buf)) [0..<2 ^ k])"
    using len downs_scan [OF len, of 0] by (simp add: downSweep_pow2)
  show ?thesis
    using len c d ups_last [OF len] upDownSweep_pow2 [OF len] by (simp add: upSweep_pow2)
qed

theorem upDownSweep_exclusive_scan_witness:
  "length [3, 1, 4, 1 :: i32] = 2 ^ 2
   \<and> upDownSweep (2 ^ 2) [3, 1, 4, 1] = Some [0, 3, 4, 8]
   \<and> (\<exists>up. upSweep (2 ^ 2) [3, 1, 4, 1] = Some up \<and> up ! (2 ^ 2 - 1) = 9)"
proof -
  have h: "length [3, 1, 4, 1 :: i32] = 2 ^ 2" by simp
  have v: "map (\<lambda>i. sum_list (take i [3, 1, 4, 1 :: i32])) [0..<2 ^ 2] = [0, 3, 4, 8]"
    by code_simp
  from upDownSweep_exclusive_scan [OF h] v h show ?thesis by auto
qed

subsection \<open>Scan\<close>

lemma length_cudaMalloc [simp]: "length (cudaMalloc heap k len) = len"
  by (simp add: cudaMalloc_def)

lemma nth_cudaMalloc [simp]: "j < len \<Longrightarrow> cudaMalloc heap k len ! j = heap k j"
  by (simp add: cudaMalloc_def)

lemma paddedLength_Some: "n \<le> 2 ^ 30 \<Longrightarrow> paddedLength n = Some (2 ^ ilog2ceil n)"
proof -
  assume "n \<le> 2 ^ 30"
  then have "ilog2ceil n \<le> 30" by (rule ilog2ceil_least)
  then have "(2::nat) ^ ilog2ceil n \<le> 2 ^ 30" by (rule power_increasing) simp
  then show ?thesis by (simp add: paddedLength_def)
qed

lemma paddedLength_None: "2 ^ 30 < n \<Longrightarrow> paddedLength n = None"
proof -
  assume "2 ^ 30 < n"
  from this ilog2ceil_ge [of n] have lt: "(2::nat) ^ 30 < 2 ^ ilog2ceil n"
    by (rule less_le_trans)
  have "(1::nat) < 2" by simp
  from power_less_imp_less_exp [OF this lt] have "31 \<le> ilog2ceil n" by simp
  then have "(2::nat) ^ 31 \<le> 2 ^ ilog2ceil n" by (rule power_increasing) simp
  then show ?thesis by (simp add: paddedLength_def)
qed

lemma scan_too_long: "2 ^ 30 < n \<Longrightarrow> scan n odata idata heap = None"
  by (simp add: scan_def paddedLength_None)

lemma scan_input_eq:
  assumes "n \<le> length idata" "n \<le> 2 ^ 30"
  shows "scan_input n idata heap
     = Some (take n idata @ drop n (cudaMalloc heap 0 (2 ^ ilog2ceil n)))"
  using assms(1) ilog2ceil_ge [of n]
  by (simp add: scan_input_def paddedLength_Some [OF assms(2)] cudaMemcpy_def)

lemma scan_eq:
  assumes "n \<le> length idata" "n \<le> length odata" "n \<le> 2 ^ 30"
  shows "scan n odata idata heap = Some (map (\<lambda>i. sum_list (take i idata)) [0..<n] @ drop n odata)"
proof -
  define N :: nat where "N = 2 ^ ilog2ceil n"
  define dev where "dev = take n idata @ drop n (cudaMalloc heap 0 N)"
  have nN: "n \<le> N" using ilog2ceil_ge [of n] by (simp add: N_def)
  have len: "length dev = 2 ^ ilog2ceil n" using assms nN by (simp add: dev_def N_def)
  have "take n (map (\<lambda>i. sum_list (take i dev)) [0..<N]) = map (\<lambda>i. sum_list (take i dev)) [0..<n]"
    using nN by (simp add: take_map)
  also have "\<dots> = map (\<lambda>i. sum_list (take i idata)) [0..<n]"
    using assms by (intro map_cong refl) (simp add: dev_def)
  finally have t: "take n (map (\<lambda>i. sum_list (take i dev)) [0..<N])
      = map (\<lambda>i. sum_list (take i idata)) [0..<n]" .
  have c: "cudaMemcpy (cudaMalloc heap 0 N) idata n = Some dev"
    using assms(1) nN by (simp add: cudaMemcpy_def dev_def)
  have "scan n odata idata heap = cudaMemcpy odata (map (\<lambda>i. sum_list (take i dev)) [0..<N]) n"
    using upDownSweep_pow2 [OF len] c
    by (simp add: scan_def paddedLength_Some [OF assms(3)] N_def)
  with t nN assms show ?thesis by (simp add: cudaMemcpy_def)
qed





text \<open>
  C3 says that in \<open>scan\<close> every cell of the padded device buffer in
  \<open>[n, paddedLength)\<close> holds 0 before \<open>upDownSweep\<close> runs. As stated, it fails: \<open>scan\<close>
  has no zero-fill. With three input elements the padded buffer has four cells, and the
  fourth still holds what the allocation held (here 7) when \<open>upDownSweep\<close> is called.
\<close>

theorem scan_pad_not_cleared:
  "scan_input 3 [1, 2, 3] (heap_rows [7]) = Some [1, 2, 3, 7] \<and> (2::nat) ^ ilog2ceil 3 = 4"
  by code_simp

text \<open>
  C3, amended. In every call \<open>scan(n, out, in)\<close> with \<open>n\<close> from 1 to \<open>2 ^ 30\<close> (the
  lengths for which the padded buffer can be allocated), the padded device buffer handed
  to \<open>upDownSweep\<close> holds the \<open>n\<close> input elements followed, at every position in
  \<open>[n, paddedLength)\<close>, by the value the allocation already held there: the pad slots are
  not written before the scan core runs.
\<close>

theorem scan_pad_holds_prior_contents:
  "1 \<le> n \<Longrightarrow> n \<le> 2 ^ 30 \<Longrightarrow> n \<le> length idata \<Longrightarrow>
   \<exists>buf. scan_input n idata heap = Some buf \<and> length buf = 2 ^ ilog2ceil n
     \<and> take n buf = take n idata
     \<and> (\<forall>j. n \<le> j \<and> j < 2 ^ ilog2ceil n \<longrightarrow> buf ! j = heap 0 j)"
  using ilog2ceil_ge [of n] by (simp add: scan_input_eq nth_append)

theorem scan_pad_holds_prior_contents_witness:
  "(1::nat) \<le> 3 \<and> (3::nat) \<le> 2 ^ 30 \<and> 3 \<le> length [1, 2, 3 :: i32]
   \<and> (\<exists>buf. scan_input 3 [1, 2, 3] (heap_rows [7]) = Some buf \<and> buf ! 3 = 7)"
proof -
  have p: "(2::nat) ^ ilog2ceil 3 = 4" by code_simp
  have hv: "heap_rows [7] 0 3 = 7" by (simp add: heap_rows_def)
  from scan_pad_holds_prior_contents [of 3 "[1, 2, 3]" "heap_rows [7]"]
  obtain buf where "scan_input 3 [1, 2, 3] (heap_rows [7]) = Some buf"
    and "\<forall>j. 3 \<le> j \<and> j < 2 ^ ilog2ceil 3 \<longrightarrow> buf ! j = heap_rows [7] 0 j"
    by auto
  then show ?thesis using p hv by auto
qed

subsection \<open>Radix sort: the classification of a bit\<close>

lemma computeE_eq: "i < 32 \<Longrightarrow> computeE v i = (if bit v i then 0 else 1)"
proof -
  assume i: "i < 32"
  have "signed_drop_bit 31 (push_bit (31 - i) v) = (if bit v i then - 1 else 0)"
  proof (rule bit_word_eqI)
    fix n assume "n < LENGTH(32)"
    then show "bit (signed_drop_bit 31 (push_bit (31 - i) v)) n
        = bit (if bit v i then - 1 else 0 :: i32) n"
      using i by (cases "n = 0") (auto simp: bit_signed_drop_bit_iff bit_push_bit_iff)
  qed
  then show ?thesis
    by (simp add: computeE_def)
qed

text \<open>
  C8. For every 32-bit value \<open>v\<close> and every bit position \<open>i\<close> below 32, the
  classification \<open>(v << (31 - i)) >> 31 ? 0 : 1\<close>, with a wrapping left shift and an
  arithmetic right shift, is 1 if bit \<open>i\<close> of \<open>v\<close> is 0, and 0 if it is 1; this is the
  value that a thread of \<open>kernComputeE\<close> below the bound stores for its element.
\<close>

theorem computeE_bit:
  "i < 32 \<Longrightarrow>
     computeE v i = (if bit v i then 0 else 1)
   \<and> (index < n \<and> index < length idata \<and> index < length odata \<longrightarrow>
        kernComputeE index n i odata idata
          = Some (odata[index := (if bit (idata ! index) i then 0 else 1)]))"
  by (simp add: computeE_eq kernComputeE_def load_def store_def)

theorem computeE_bit_witness:
  "(3::nat) < 32 \<and> computeE 8 3 = 0 \<and> computeE 5 3 = 1
   \<and> kernComputeE 1 2 3 [7, 7] [8, 5] = Some [7, 1]"
  using computeE_bit [of 3 8 1 2 "[8, 5]" "[7, 7]"] computeE_bit [of 3 5 1 2 "[8, 5]" "[7, 7]"]
  by simp

subsection \<open>Launches without their idle threads\<close>

text \<open>
  Every kernel returns at once in a thread whose \<open>index\<close> is not below its bound, so a
  launch is the run of the threads below the bound. These equations are the ones used
  to evaluate concrete runs.
\<close>

lemma upSweep_threads [code]:
  "upSweep n data =
     steps [0..<ilog2ceil n]
       (\<lambda>d. steps [0..<min n ((blockSize + n - 1) div blockSize * blockSize)]
              (\<lambda>index. kernUpSweep index n d)) data"
proof (cases "n = 0")
  case True
  then show ?thesis by (simp add: upSweep_def ilog2ceil.simps)
next
  case False
  then have "0 < (blockSize + n - 1) div blockSize" by (intro grid_sweep_pos) simp
  then have "launch ((blockSize + n - 1) div blockSize) (\<lambda>index. kernUpSweep index n d)
      = steps [0..<min n ((blockSize + n - 1) div blockSize * blockSize)]
          (\<lambda>index. kernUpSweep index n d)" for d
    by (intro ext launch_guarded) (simp_all add: kernUpSweep_def)
  then show ?thesis by (simp only: upSweep_def)
qed

lemma downSweep_threads [code]:
  "downSweep n data =
     steps (rev [0..<ilog2ceil n])
       (\<lambda>d. steps [0..<min n ((blockSize + n - 1) div blockSize * blockSize)]
              (\<lambda>index. kernDownSweep index n d)) data"
proof (cases "n = 0")
  case True
  then show ?thesis by (simp add: downSweep_def ilog2ceil.simps)
next
  case False
  then have "0 < (blockSize + n - 1) div blockSize" by (intro grid_sweep_pos) simp
  then have "launch ((blockSize + n - 1) div blockSize) (\<lambda>index. kernDownSweep index n d)
      = steps [0..<min n ((blockSize + n - 1) div blockSize * blockSize)]
          (\<lambda>index. kernDownSweep index n d)" for d
    by (intro ext launch_guarded) (simp_all add: kernDownSweep_def)
  then show ?thesis by (simp only: downSweep_def)
qed

lemma radix_classify_threads [code]:
  "radix_classify n i s =
     (let fullBlocksPerGrid = (n + blockSize - 1) div blockSize;
          arraySize = 2 ^ ilog2ceil n
      in do {
        e \<leftarrow> (if fullBlocksPerGrid = 0 then None
             else steps [0..<min n (fullBlocksPerGrid * blockSize)]
                    (\<lambda>index out. kernComputeE index n i out (dev_idata s)) (dev_e s));
        if arraySize > n then store e (arraySize - 1) 0 else Some e
      })"
proof -
  have E: "launch b (\<lambda>index out. kernComputeE index N i out inp) m
      = (if b = 0 then None
         else steps [0..<min N (b * blockSize)] (\<lambda>index out. kernComputeE index N i out inp) m)"
    for b N inp m
    by (rule launch_threads) (simp add: kernComputeE_def)
  show ?thesis
    unfolding radix_classify_def Let_def E ..
qed

lemma radix_pass_threads [code]:
  "radix_pass n i s =
     (let fullBlocksPerGrid = (n + blockSize - 1) div blockSize;
          arraySize = 2 ^ ilog2ceil n;
          threads = [0..<min arraySize (fullBlocksPerGrid * blockSize)]
      in do {
        e \<leftarrow> radix_classify n i s;
        f \<leftarrow> cudaMemcpy (dev_f s) e arraySize;
        f \<leftarrow> upDownSweep arraySize f;
        totalFalse \<leftarrow> load e (arraySize - 1);
        lastF \<leftarrow> load f (arraySize - 1);
        let totalFalse = totalFalse + lastF;
        t \<leftarrow> (if fullBlocksPerGrid = 0 then None
             else steps threads
                    (\<lambda>index out. kernComputeT index arraySize totalFalse out f) (dev_t s));
        d \<leftarrow> (if fullBlocksPerGrid = 0 then None
             else steps threads
                    (\<lambda>index out. kernComputeD index arraySize out e t f) (dev_d s));
        out \<leftarrow> (if fullBlocksPerGrid = 0 then None
               else steps threads
                      (\<lambda>index out. kernScatter index arraySize d out (dev_idata s))
                      (dev_odata s));
        inp \<leftarrow> cudaMemcpy (dev_idata s) out arraySize;
        Some \<lparr>dev_e = e, dev_f = f, dev_t = t, dev_d = d, dev_idata = inp, dev_odata = out\<rparr>
      })"
proof -
  have T: "launch b (\<lambda>index out. kernComputeT index N tf out f) m
      = (if b = 0 then None
         else steps [0..<min N (b * blockSize)] (\<lambda>index out. kernComputeT index N tf out f) m)"
    for b N tf f m
    by (rule launch_threads) (simp add: kernComputeT_def)
  have D: "launch b (\<lambda>index out. kernComputeD index N out e t f) m
      = (if b = 0 then None
         else steps [0..<min N (b * blockSize)] (\<lambda>index out. kernComputeD index N out e t f) m)"
    for b N e t f m
    by (rule launch_threads) (simp add: kernComputeD_def)
  have S: "launch b (\<lambda>index out. kernScatter index N d out inp) m
      = (if b = 0 then None
         else steps [0..<min N (b * blockSize)] (\<lambda>index out. kernScatter index N d out inp) m)"
    for b N d inp m
    by (rule launch_threads) (simp add: kernScatter_def)
  show ?thesis
    unfolding radix_pass_def Let_def T D S ..
qed

lemma compact_threads [code]:
  "compact n odata idata heap =
     (let fullBlocksPerGrid = (n + blockSize - 1) div blockSize;
          arraySize = 2 ^ ilog2ceil n;
          dev_indices = cudaMalloc heap 0 arraySize;
          dev_bool = cudaMalloc heap 1 arraySize;
          dev_idata = cudaMalloc heap 2 arraySize
      in do {
        dev_idata \<leftarrow> cudaMemcpy dev_idata idata n;
        dev_bool \<leftarrow> (if fullBlocksPerGrid = 0 then None
                    else steps [0..<min n (fullBlocksPerGrid * blockSize)]
                           (\<lambda>index bools. kernMapToBoolean index n bools dev_idata) dev_bool);
        dev_indices \<leftarrow> cudaMemcpy dev_indices dev_bool n;
        dev_indices \<leftarrow> upDownSweep arraySize dev_indices;
        returnSize \<leftarrow> load dev_indices (arraySize - 1);
        lastBool \<leftarrow> load dev_bool (arraySize - 1);
        let returnSize = returnSize + lastBool;
        if sint returnSize < 0 then None
        else do {
          let dev_odata = cudaMalloc heap 3 (nat (sint returnSize));
          dev_odata \<leftarrow> (if fullBlocksPerGrid = 0 then None
                       else steps [0..<min arraySize (fullBlocksPerGrid * blockSize)]
                              (\<lambda>index out.
                                  kernScatterBools index arraySize out dev_idata dev_bool
                                    dev_indices)
                              dev_odata);
          odata \<leftarrow> cudaMemcpy odata dev_odata (nat (sint returnSize));
          Some (returnSize, odata)
        }
      })"
proof -
  have M: "launch b (\<lambda>index bools. kernMapToBoolean index N bools inp) m
      = (if b = 0 then None
         else steps [0..<min N (b * blockSize)]
                (\<lambda>index bools. kernMapToBoolean index N bools inp) m)"
    for b N inp m
    by (rule launch_threads) (simp add: kernMapToBoolean_def)
  have S: "launch b (\<lambda>index out. kernScatterBools index N out inp bs ix) m
      = (if b = 0 then None
         else steps [0..<min N (b * blockSize)]
                (\<lambda>index out. kernScatterBools index N out inp bs ix) m)"
    for b N inp bs ix m
    by (rule launch_threads) (simp add: kernScatterBools_def)
  show ?thesis
    unfolding compact_def Let_def M S ..
qed

subsection \<open>Radix sort: what is copied back to the host\<close>

lemma steps_invariant:
  assumes "\<And>i m m'. i \<in> set xs \<Longrightarrow> P m \<Longrightarrow> body i m = Some m' \<Longrightarrow> P m'"
    and "P m" and "steps xs body m = Some m'"
  shows "P m'"
  using assms
proof (induction xs arbitrary: m)
  case Nil
  then show ?case by simp
next
  case (Cons i xs)
  from Cons.prems(3) obtain m1 where m1: "body i m = Some m1" and r: "steps xs body m1 = Some m'"
    by (auto split: Option.bind_splits)
  have "i \<in> set (i # xs)" by simp
  then have p1: "P m1" using Cons.prems(2) m1 by (rule Cons.prems(1))
  show ?case
  proof (rule Cons.IH [OF _ p1 r])
    fix j x y assume "j \<in> set xs" "P x" "body j x = Some y"
    moreover from this have "j \<in> set (i # xs)" by simp
    ultimately show "P y" by (intro Cons.prems(1) [of j x y])
  qed
qed

lemma length_store: "store x i v = Some y \<Longrightarrow> length y = length x"
  by (auto simp: store_def split: if_splits)

lemma length_store_at: "store_at x j v = Some y \<Longrightarrow> length y = length x"
  by (auto simp: store_at_def split: if_splits dest: length_store)

lemma length_kernScatter: "kernScatter index n d odata idata = Some y \<Longrightarrow> length y = length odata"
  by (auto simp: kernScatter_def split: if_splits Option.bind_splits dest: length_store_at)

lemma length_launch:
  assumes "\<And>i m m'. body i m = Some m' \<Longrightarrow> length m' = length m"
    and "launch blocks body m = Some m'"
  shows "length m' = length m"
proof (rule steps_invariant [where P = "\<lambda>x. length x = length m" and body = body
          and xs = "[0..<blocks * blockSize]" and m = m])
  show "steps [0..<blocks * blockSize] body m = Some m'"
    using assms(2) by (simp add: launch_def split: if_splits)
  show "length m = length m" ..
  fix i x y assume "length x = length m" and "body i x = Some y"
  then show "length y = length m" using assms(1) [of i x y] by (simp only:)
qed

lemma radix_pass_length:
  assumes "radix_pass n i s = Some s'"
  shows "length (dev_odata s') = length (dev_odata s)"
proof -
  from assms obtain d out where
    l: "launch ((n + blockSize - 1) div blockSize)
       (\<lambda>index out. kernScatter index (2 ^ ilog2ceil n) d out (dev_idata s)) (dev_odata s) = Some out"
    and "dev_odata s' = out"
    unfolding radix_pass_def Let_def by (clarsimp simp: bind_eq_Some_conv)
  moreover have "length out = length (dev_odata s)"
    using l by (rule length_launch [rotated]) (rule length_kernScatter)
  ultimately show ?thesis by simp
qed

lemma radixSort_device_length:
  assumes "radixSort_device n idata heap = Some s"
  shows "length (dev_odata s) = 2 ^ ilog2ceil n"
proof -
  from assms obtain s0 where s0: "radix_init n idata heap = Some s0"
    and st: "steps [0..<32] (radix_pass n) s0 = Some s"
    by (auto simp: radixSort_device_def bind_eq_Some_conv)
  from s0 have "length (dev_odata s0) = 2 ^ ilog2ceil n"
    by (auto simp: radix_init_def Let_def bind_eq_Some_conv)
  then show ?thesis
    using steps_invariant [where P = "\<lambda>x. length (dev_odata x) = 2 ^ ilog2ceil n", OF _ _ st]
    by (simp add: radix_pass_length)
qed

text \<open>
  C10. \<open>radixSort(n, out, in)\<close> ends with a copy of \<open>paddedLength = 1 << ilog2ceil(n)\<close>
  elements, not \<open>n\<close>, from the device buffer \<open>dev_odata\<close> to \<open>out\<close>: whenever it
  returns, \<open>out\<close> holds the whole padded device buffer, pad positions included, followed
  by what \<open>out\<close> held beyond the padded length; and it cannot return when \<open>out\<close> has
  room for fewer than \<open>paddedLength\<close> elements.
\<close>

theorem radixSort_writes_padded_length:
  "(length odata < 2 ^ ilog2ceil n \<longrightarrow> radixSort n odata idata heap = None)
   \<and> (\<forall>out. radixSort n odata idata heap = Some out \<longrightarrow>
        (\<exists>s. radixSort_device n idata heap = Some s
           \<and> length (dev_odata s) = 2 ^ ilog2ceil n
           \<and> out = dev_odata s @ drop (2 ^ ilog2ceil n) odata))"
proof (intro conjI impI allI)
  assume "length odata < 2 ^ ilog2ceil n"
  then show "radixSort n odata idata heap = None"
    by (simp add: radixSort_def cudaMemcpy_def split: Option.bind_splits)
next
  fix out assume "radixSort n odata idata heap = Some out"
  then obtain s where s: "radixSort_device n idata heap = Some s"
    and c: "cudaMemcpy odata (dev_odata s) (2 ^ ilog2ceil n) = Some out"
    by (auto simp: radixSort_def bind_eq_Some_conv)
  from radixSort_device_length [OF s] c
  have "out = dev_odata s @ drop (2 ^ ilog2ceil n) odata"
    by (auto simp: cudaMemcpy_def split: if_splits)
  with s radixSort_device_length [OF s]
  show "\<exists>s. radixSort_device n idata heap = Some s
           \<and> length (dev_odata s) = 2 ^ ilog2ceil n
           \<and> out = dev_odata s @ drop (2 ^ ilog2ceil n) odata"
    by blast
qed

theorem radixSort_writes_padded_length_witness:
  "radixSort 3 [9, 9, 9, 9, 9] [3, 1, 2] (heap_rows []) = Some [1, 2, 3, 0, 9]
   \<and> (\<exists>s. radixSort_device 3 [3, 1, 2] (heap_rows []) = Some s
          \<and> [1, 2, 3, 0, 9] = dev_odata s @ drop (2 ^ ilog2ceil 3) [9, 9, 9, 9, 9])
   \<and> length [9, 9, 9 :: i32] < 2 ^ ilog2ceil 3
   \<and> radixSort 3 [9, 9, 9] [3, 1, 2] (heap_rows []) = None"
proof -
  have v: "radixSort 3 [9, 9, 9, 9, 9] [3, 1, 2] (heap_rows []) = Some [1, 2, 3, 0, 9]"
    by code_simp
  have l: "length [9, 9, 9 :: i32] < 2 ^ ilog2ceil 3"
    by code_simp
  from radixSort_writes_padded_length [of "[9, 9, 9, 9, 9]" 3 "[3, 1, 2]" "heap_rows []"] v
    radixSort_writes_padded_length [of "[9, 9, 9]" 3 "[3, 1, 2]" "heap_rows []"] l
  show ?thesis by blast
qed

subsection \<open>Runs on a device whose memory is not zero\<close>

text \<open>
  C7 says that in every pass of \<open>radixSort\<close> with \<open>n < paddedLength\<close> all the cells of
  \<open>dev_e\<close> in \<open>[n, paddedLength)\<close> are 0 before the scan. The code clears only the last
  one: with five elements (padded length 8) and an allocation of \<open>dev_e\<close> that held
  ones, the classification array of pass 0 has ones at positions 5 and 6 when it is
  copied to \<open>dev_f\<close> and scanned.
\<close>

theorem radix_classify_stale_pad:
  "Option.bind (radix_init 5 [5, 3, 1, 4, 2] (heap_rows [1])) (radix_classify 5 0)
     = Some [0, 0, 0, 1, 1, 1, 1, 0]"
  by code_simp

text \<open>
  C4 says that the first \<open>n\<close> cells of \<open>out\<close> after \<open>radixSort(n, out, in)\<close> are a
  permutation of the input in ascending unsigned order. On the same device state,
  \<open>radixSort\<close> of \<open>[5, 3, 1, 4, 2]\<close> returns with the first five cells of \<open>out\<close> holding
  \<open>[0, 0, 3, 1, 2]\<close>: neither a permutation of the input nor in ascending order. On a
  device that held zeros it returns \<open>[1, 2, 3, 4, 5]\<close> there.
\<close>

theorem radixSort_stale_pad:
  "radixSort 5 [0, 0, 0, 0, 0, 0, 0, 0] [5, 3, 1, 4, 2] (heap_rows [1])
     = Some [0, 0, 3, 1, 2, 4, 5, 0]
   \<and> radixSort 5 [0, 0, 0, 0, 0, 0, 0, 0] [5, 3, 1, 4, 2] (heap_rows [])
     = Some [1, 2, 3, 4, 5, 0, 0, 0]"
  by code_simp

text \<open>
  C5 says that \<open>compact\<close> returns the number of input elements that are not 0. The code
  adds the last cell of the padded predicate buffer, which no thread writes when \<open>n\<close> is
  not a power of two. For the three elements \<open>[1, 2, 3]\<close> (none of them 0, padded length
  4) and an allocation of \<open>dev_bool\<close> that held ones, it returns 4.
\<close>

theorem compact_stale_count:
  "compact 3 [7, 7, 7, 7] [1, 2, 3] (heap_rows [0, 1]) = Some (4, [1, 2, 3, 0])"
  by code_simp

text \<open>
  C6 says that the output of \<open>compact\<close> is exactly the elements of the input that are
  not 0, in their order, and that no other position of \<open>out\<close> receives an element. The
  scatter runs over the padded length: for the three elements \<open>[4, 0, 5]\<close> (padded
  length 4), with allocations of \<open>dev_bool\<close> that held ones and of \<open>dev_idata\<close> that held
  nines, the pad cell is scattered too, and the output is \<open>[4, 5, 9]\<close>, of length 3.
\<close>

theorem compact_stale_scatter:
  "compact 3 [7, 7, 7, 7] [4, 0, 5] (heap_rows [0, 1, 9]) = Some (3, [4, 5, 9, 7])"
  by code_simp

subsection \<open>Compaction when the pad is neutral\<close>

text \<open>
  For \<open>n\<close> at least 1, when the pad cells of \<open>dev_indices\<close> and \<open>dev_bool\<close> hold 0 at
  allocation (there is no pad cell when \<open>n\<close> is a power of two), \<open>compact\<close> returns the
  number of elements that are not 0 and stores them, in their order, at the start of
  \<open>out\<close>.
\<close>

lemma grid_covers': "n \<le> (n + blockSize - 1) div blockSize * blockSize"
  using grid_covers [of n] by (simp add: add.commute)

lemma mapToBoolean_partial:
  assumes "n \<le> length inp" "n \<le> length bs" "t \<le> n"
  shows "steps [0..<t] (\<lambda>index bools. kernMapToBoolean index n bools inp) bs
     = Some (map flag (take t inp) @ drop t bs)"
  using assms(3)
proof (induction t)
  case 0
  show ?case by simp
next
  case (Suc t)
  then have t: "t < n" and IH: "steps [0..<t] (\<lambda>index bools. kernMapToBoolean index n bools inp) bs
     = Some (map flag (take t inp) @ drop t bs)" by simp_all
  have d: "drop t bs = bs ! t # drop (Suc t) bs"
    using t assms(2) by (simp add: Cons_nth_drop_Suc)
  have l: "length (map flag (take t inp)) = t" using t assms(1) by simp
  have "(map flag (take t inp) @ drop t bs)[t := flag (inp ! t)]
      = map flag (take (Suc t) inp) @ drop (Suc t) bs"
    unfolding d using t assms(1) l
    by (simp add: take_Suc_conv_app_nth list_update_append)
  then have "kernMapToBoolean t n (map flag (take t inp) @ drop t bs) inp
      = Some (map flag (take (Suc t) inp) @ drop (Suc t) bs)"
    using t assms(1,2) by (simp add: kernMapToBoolean_def load_def store_def flag_def)
  with IH show ?case by (simp add: steps_append)
qed

lemma mapToBoolean_launch:
  assumes len: "n \<le> length inp" "n \<le> length bs" and pos: "0 < n"
  shows "launch ((n + blockSize - 1) div blockSize)
      (\<lambda>index bools. kernMapToBoolean index n bools inp) bs
     = Some (map flag (take n inp) @ drop n bs)"
proof -
  have "launch ((n + blockSize - 1) div blockSize)
      (\<lambda>index bools. kernMapToBoolean index n bools inp) bs
    = steps [0..<min n ((n + blockSize - 1) div blockSize * blockSize)]
        (\<lambda>index bools. kernMapToBoolean index n bools inp) bs"
    by (rule launch_guarded) (simp add: kernMapToBoolean_def, rule grid_pos [OF pos])
  also have "min n ((n + blockSize - 1) div blockSize * blockSize) = n"
    using grid_covers' [of n] by simp
  finally show ?thesis using mapToBoolean_partial [OF len order_refl] by simp
qed

lemma sum_list_flag:
  "sum_list (map flag xs) = of_nat (length (filter (\<lambda>v. v \<noteq> 0) xs))"
  by (induction xs) (simp_all add: flag_def)

lemma sint_of_nat_small: "k < 2 ^ 31 \<Longrightarrow> sint (of_nat k :: i32) = int k"
proof -
  assume k: "k < 2 ^ 31"
  have "sint (of_nat k :: i32) = signed_take_bit 31 (int k)"
    by (simp add: signed_of_nat)
  also have "\<dots> = int k"
    using k by (intro signed_take_bit_int_eq_self) simp_all
  finally show ?thesis .
qed

lemma store_at_count:
  assumes "k < length out" "k < 2 ^ 31"
  shows "store_at out (of_nat k) v = Some (out[k := v])"
  using assms by (simp add: store_at_def store_def sint_of_nat_small)

lemma nonzeros_take_Suc:
  assumes "t < length inp"
  shows "nonzeros (take (Suc t) inp)
     = nonzeros (take t inp) @ (if inp ! t \<noteq> 0 then [inp ! t] else [])"
  using assms by (simp add: take_Suc_conv_app_nth)

lemma length_nonzeros_mono:
  "t \<le> n \<Longrightarrow> length (nonzeros (take t inp)) \<le> length (nonzeros (take n inp))"
proof -
  assume "t \<le> n"
  then have "take n inp = take t inp @ take (n - t) (drop t inp)"
    by (metis le_add_diff_inverse take_add)
  then show ?thesis by simp
qed

lemma scatter_partial:
  assumes len: "length bools = N" "length indices = N" "length inp = N" "n \<le> N"
    and fl: "\<And>j. j < n \<Longrightarrow> bools ! j = flag (inp ! j)"
    and ix: "\<And>j. j < n \<Longrightarrow> indices ! j = of_nat (length (nonzeros (take j inp)))"
    and od: "length od = length (nonzeros (take n inp))" "length od < 2 ^ 31"
    and t: "t \<le> n"
  shows "steps [0..<t] (\<lambda>index out. kernScatterBools index N out inp bools indices) od
     = Some (nonzeros (take t inp) @ drop (length (nonzeros (take t inp))) od)"
  using t
proof (induction t)
  case 0
  show ?case by simp
next
  case (Suc t)
  define c where "c = length (nonzeros (take t inp))"
  define st where "st = nonzeros (take t inp) @ drop c od"
  from Suc have t: "t < n"
    and IH: "steps [0..<t] (\<lambda>index out. kernScatterBools index N out inp bools indices) od
       = Some st" by (simp_all add: st_def c_def)
  have tN: "t < N" using t len by simp
  have "kernScatterBools t N st inp bools indices
      = Some (nonzeros (take (Suc t) inp) @ drop (length (nonzeros (take (Suc t) inp))) od)"
  proof (cases "inp ! t = 0")
    case True
    then have "nonzeros (take (Suc t) inp) = nonzeros (take t inp)"
      using tN len by (simp add: nonzeros_take_Suc)
    with True show ?thesis
      using tN len fl [OF t] by (simp add: kernScatterBools_def load_def flag_def st_def c_def)
  next
    case False
    have nz: "nonzeros (take (Suc t) inp) = nonzeros (take t inp) @ [inp ! t]"
      using False tN len by (simp add: nonzeros_take_Suc)
    have "length (nonzeros (take (Suc t) inp)) \<le> length (nonzeros (take n inp))"
      using t by (intro length_nonzeros_mono) simp
    then have c: "c < length od" using od(1) by (simp add: nz c_def)
    then have d: "drop c od = od ! c # drop (Suc c) od"
      by (simp add: Cons_nth_drop_Suc)
    have "st[c := inp ! t] = nonzeros (take t inp) @ inp ! t # drop (Suc c) od"
      unfolding st_def d by (simp add: list_update_append c_def)
    moreover have "store_at st (of_nat c) (inp ! t) = Some (st[c := inp ! t])"
      using c od(2) by (intro store_at_count) (simp_all add: st_def c_def)
    ultimately show ?thesis
      using False tN len fl [OF t] ix [OF t]
      by (simp add: kernScatterBools_def load_def flag_def nz c_def)
  qed
  with IH show ?case by (simp add: steps_append)
qed

lemma scatter_launch:
  assumes len: "length bools = N" "length indices = N" "length inp = N" "n \<le> N"
    and fl: "\<And>j. j < n \<Longrightarrow> bools ! j = flag (inp ! j)"
    and pad: "\<And>j. n \<le> j \<Longrightarrow> j < N \<Longrightarrow> bools ! j = 0"
    and ix: "\<And>j. j < n \<Longrightarrow> indices ! j = of_nat (length (nonzeros (take j inp)))"
    and od: "length od = length (nonzeros (take n inp))" "length od < 2 ^ 31"
    and pos: "0 < n"
  shows "launch ((n + blockSize - 1) div blockSize)
      (\<lambda>index out. kernScatterBools index N out inp bools indices) od
     = Some (nonzeros (take n inp))"
proof -
  define M where "M = min N ((n + blockSize - 1) div blockSize * blockSize)"
  have nM: "n \<le> M" using len(4) grid_covers' [of n] by (simp add: M_def)
  have MN: "M \<le> N" by (simp add: M_def)
  have "launch ((n + blockSize - 1) div blockSize)
      (\<lambda>index out. kernScatterBools index N out inp bools indices) od
    = steps [0..<M] (\<lambda>index out. kernScatterBools index N out inp bools indices) od"
    unfolding M_def
    by (rule launch_guarded) (simp add: kernScatterBools_def, rule grid_pos [OF pos])
  also have "[0..<M] = [0..<n] @ [n..<M]"
    using nM by (metis le_add_diff_inverse upt_add_eq_append zero_le)
  also have "steps ([0..<n] @ [n..<M])
      (\<lambda>index out. kernScatterBools index N out inp bools indices) od
    = Option.bind (Some (nonzeros (take n inp) @ drop (length (nonzeros (take n inp))) od))
        (steps [n..<M] (\<lambda>index out. kernScatterBools index N out inp bools indices))"
    unfolding steps_append
    using scatter_partial [OF len fl ix od order_refl] by simp
  also have "\<dots> = Some (nonzeros (take n inp) @ drop (length (nonzeros (take n inp))) od)"
  proof -
    have "steps [n..<M] (\<lambda>index out. kernScatterBools index N out inp bools indices) m = Some m"
      for m
    proof (rule steps_idle)
      fix i m assume "i \<in> set [n..<M]"
      then have "n \<le> i" "i < N" using MN by simp_all
      then show "kernScatterBools i N m inp bools indices = Some m"
        using pad [of i] len by (simp add: kernScatterBools_def load_def)
    qed
    then show ?thesis by simp
  qed
  finally show ?thesis using od(1) by simp
qed

lemma compact_neutral_pad:
  assumes pos: "1 \<le> n" and n: "n \<le> length idata"
    and small: "(2::nat) ^ ilog2ceil n < 2 ^ 31"
    and pad: "\<And>j. n \<le> j \<Longrightarrow> j < 2 ^ ilog2ceil n \<Longrightarrow> heap 0 j = 0 \<and> heap 1 j = 0"
    and room: "length (nonzeros (take n idata)) \<le> length odata"
  shows "compact n odata idata heap
     = Some (of_nat (length (nonzeros (take n idata))),
             nonzeros (take n idata) @ drop (length (nonzeros (take n idata))) odata)"
proof -
  define N :: nat where "N = 2 ^ ilog2ceil n"
  define xs where "xs = take n idata"
  define c where "c = length (nonzeros xs)"
  define zs :: buffer where "zs = replicate (N - n) 0"
  define inp where "inp = xs @ drop n (cudaMalloc heap 2 N)"
  define bools where "bools = map flag xs @ zs"
  define scanned where "scanned = map (\<lambda>i. sum_list (take i bools)) [0..<N]"
  have nN: "n \<le> N" using ilog2ceil_ge [of n] by (simp add: N_def)
  have N0: "0 < N" by (simp add: N_def)
  have lxs: "length xs = n" using n by (simp add: xs_def)
  have cn: "c \<le> n" using lxs length_filter_le [of "\<lambda>v. v \<noteq> 0" xs] by (simp add: c_def)
  have c31: "c < 2 ^ 31" using cn nN small by (simp add: N_def)
  have z0: "drop n (cudaMalloc heap 0 N) = zs" and z1: "drop n (cudaMalloc heap 1 N) = zs"
    using pad nN by (auto simp: zs_def N_def intro!: nth_equalityI)
  have linp: "length inp = N" using lxs nN by (simp add: inp_def)
  have tinp: "take n inp = xs" using lxs by (simp add: inp_def)
  have lb: "length bools = N" using lxs nN by (simp add: bools_def zs_def)
  \<comment> \<open>the copy of the input and the predicate kernel\<close>
  have e1: "cudaMemcpy (cudaMalloc heap 2 N) idata n = Some inp"
    using n nN by (simp add: cudaMemcpy_def inp_def xs_def)
  have e2: "launch ((n + blockSize - 1) div blockSize)
      (\<lambda>index bools. kernMapToBoolean index n bools inp) (cudaMalloc heap 1 N) = Some bools"
  proof -
    have "launch ((n + blockSize - 1) div blockSize)
      (\<lambda>index bools. kernMapToBoolean index n bools inp) (cudaMalloc heap 1 N)
       = Some (map flag (take n inp) @ drop n (cudaMalloc heap 1 N))"
      by (rule mapToBoolean_launch) (use nN linp pos in simp_all)
    then show ?thesis unfolding tinp z1 bools_def .
  qed
  \<comment> \<open>the scan of the predicate\<close>
  have e3: "cudaMemcpy (cudaMalloc heap 0 N) bools n = Some bools"
  proof -
    have "cudaMemcpy (cudaMalloc heap 0 N) bools n
        = Some (take n bools @ drop n (cudaMalloc heap 0 N))"
      using nN lb by (simp add: cudaMemcpy_def)
    also have "take n bools = map flag xs" using lxs by (simp add: bools_def)
    finally show ?thesis unfolding z0 bools_def .
  qed
  have e4: "upDownSweep N bools = Some scanned"
    unfolding scanned_def N_def by (rule upDownSweep_pow2) (use lb in \<open>simp add: N_def\<close>)
  have sb: "sum_list (take j bools) = of_nat (length (nonzeros (take j xs)))" if "j \<le> n" for j
  proof -
    have "take j bools = map flag (take j xs)"
      using that lxs by (simp add: bools_def take_map)
    then show ?thesis by (simp add: sum_list_flag)
  qed
  have "take (N - 1) bools @ [bools ! (N - 1)] = bools"
    using N0 lb by (metis Suc_pred' lessI take_Suc_conv_app_nth take_all order_refl)
  then have "sum_list (take (N - 1) bools) + bools ! (N - 1) = sum_list bools"
    by (metis sum_list.Cons sum_list.Nil sum_list_append add.right_neutral)
  also have "\<dots> = of_nat c"
    by (simp add: bools_def zs_def sum_list_flag c_def sum_list_replicate)
  finally have total: "sum_list (take (N - 1) bools) + bools ! (N - 1) = of_nat c" .
  have e5: "load scanned (N - 1) = Some (sum_list (take (N - 1) bools))"
    using N0 by (simp add: load_def scanned_def)
  have e6: "load bools (N - 1) = Some (bools ! (N - 1))"
    using N0 lb by (simp add: load_def)
  have sc: "sint (of_nat c :: i32) = int c" using c31 by (rule sint_of_nat_small)
  \<comment> \<open>the scatter and the copy to the host\<close>
  have e7: "launch ((n + blockSize - 1) div blockSize)
      (\<lambda>index out. kernScatterBools index N out inp bools scanned) (cudaMalloc heap 3 c)
     = Some (nonzeros xs)"
  proof -
    have "launch ((n + blockSize - 1) div blockSize)
      (\<lambda>index out. kernScatterBools index N out inp bools scanned) (cudaMalloc heap 3 c)
     = Some (nonzeros (take n inp))"
    proof (rule scatter_launch)
      show "length bools = N" "length scanned = N" "length inp = N" "n \<le> N"
        using lb linp nN by (simp_all add: scanned_def)
      show "bools ! j = flag (inp ! j)" if "j < n" for j
        using that lxs by (simp add: bools_def inp_def nth_append)
      show "bools ! j = 0" if "n \<le> j" "j < N" for j
        using that lxs by (simp add: bools_def zs_def nth_append)
      show "scanned ! j = of_nat (length (nonzeros (take j inp)))" if "j < n" for j
      proof -
        have "take j inp = take j xs" using that lxs by (simp add: inp_def)
        then show ?thesis using that nN sb [of j] by (simp add: scanned_def)
      qed
      show "length (cudaMalloc heap 3 c) = length (nonzeros (take n inp))"
        by (simp add: tinp c_def)
      show "length (cudaMalloc heap 3 c) < 2 ^ 31" using c31 by simp
      show "0 < n" using pos by simp
    qed
    then show ?thesis by (simp add: tinp)
  qed
  have e8: "cudaMemcpy odata (nonzeros xs) c = Some (nonzeros xs @ drop c odata)"
    using room by (simp add: cudaMemcpy_def c_def xs_def)
  show ?thesis
    apply (simp only: compact_def Let_def N_def [symmetric])
    apply (simp only: e1 Option.bind.bind_lunit e2 e3 e4 e5 e6 total sc)
    apply (simp only: of_nat_less_0_iff if_False nat_int e7 e8 Option.bind.bind_lunit)
    apply (simp only: c_def xs_def)
    done
qed

subsection \<open>Radix sort when the pad is neutral\<close>

text \<open>
  For \<open>n\<close> at least 1, when the pad cells of \<open>dev_e\<close> other than the last hold 0 at
  allocation (there is none when \<open>paddedLength - n\<close> is at most 1), every pass is the
  stable split of the first \<open>n\<close> elements on its bit, and \<open>radixSort\<close> returns them as an
  ascending permutation under the unsigned reading.
\<close>

lemma steps_fill:
  assumes body: "\<And>j out. j < t \<Longrightarrow> length out = L \<Longrightarrow> body j out = Some (out[j := g j])"
    and "t \<le> L" "length od = L"
  shows "steps [0..<t] body od = Some (map g [0..<t] @ drop t od)"
  using assms
proof (induction t)
  case 0
  show ?case by simp
next
  case (Suc t)
  have IH: "steps [0..<t] body od = Some (map g [0..<t] @ drop t od)"
    using Suc.prems by (intro Suc.IH) simp_all
  have d: "drop t od = od ! t # drop (Suc t) od"
    using Suc.prems by (simp add: Cons_nth_drop_Suc)
  have "length (map g [0..<t] @ drop t od) = L" using Suc.prems by simp
  then have "body t (map g [0..<t] @ drop t od) = Some ((map g [0..<t] @ drop t od)[t := g t])"
    using Suc.prems(1) [of t] by simp
  also have "(map g [0..<t] @ drop t od)[t := g t] = map g [0..<Suc t] @ drop (Suc t) od"
    unfolding d by (simp add: list_update_append)
  finally show ?case using IH by (simp add: steps_append)
qed

lemma launch_fill:
  assumes guard: "\<And>j out. bound \<le> j \<Longrightarrow> body j out = Some out"
    and body: "\<And>j out. j < bound \<Longrightarrow> length out = L \<Longrightarrow> body j out = Some (out[j := g j])"
    and "bound \<le> L" "length od = L" "M = min bound (blocks * blockSize)"
    and pos: "0 < blocks"
  shows "launch blocks body od = Some (map g [0..<M] @ drop M od)"
proof -
  have "launch blocks body od = steps [0..<M] body od"
    unfolding assms(5) using guard pos by (rule launch_guarded)
  also have "\<dots> = Some (map g [0..<M] @ drop M od)"
    using assms(3,4,5) by (intro steps_fill body) simp_all
  finally show ?thesis .
qed

lemma map_nth_take: "t \<le> length xs \<Longrightarrow> map (\<lambda>j. f (xs ! j)) [0..<t] = map f (take t xs)"
  by (intro nth_equalityI) simp_all

lemma classify_launch:
  assumes "length e0 = N" "length inp = N" "n \<le> N" and pos: "0 < n"
  shows "launch ((n + blockSize - 1) div blockSize)
      (\<lambda>index out. kernComputeE index n i out inp) e0
    = Some (map (\<lambda>v. computeE v i) (take n inp) @ drop n e0)"
proof -
  have m: "n = min n ((n + blockSize - 1) div blockSize * blockSize)"
    using grid_covers' [of n] by simp
  have "launch ((n + blockSize - 1) div blockSize)
      (\<lambda>index out. kernComputeE index n i out inp) e0
    = Some (map (\<lambda>j. computeE (inp ! j) i) [0..<n] @ drop n e0)"
  proof (rule launch_fill [where L = N and bound = n])
    show "kernComputeE j n i out inp = Some out" if "n \<le> j" for j out
      using that by (simp add: kernComputeE_def)
    show "kernComputeE j n i out inp = Some (out[j := computeE (inp ! j) i])"
      if "j < n" "length out = N" for j out
      using that assms by (simp add: kernComputeE_def load_def store_def)
    show "0 < (n + blockSize - 1) div blockSize" by (rule grid_pos [OF pos])
  qed (use assms m in simp_all)
  then show ?thesis
    using assms map_nth_take [of n inp "\<lambda>v. computeE v i"] by simp
qed

lemma radix_classify_neutral:
  assumes len: "length (dev_e s) = 2 ^ ilog2ceil n" "length (dev_idata s) = 2 ^ ilog2ceil n"
    and pad: "\<And>j. n \<le> j \<Longrightarrow> j + 1 < 2 ^ ilog2ceil n \<Longrightarrow> dev_e s ! j = 0"
    and pos: "0 < n"
  shows "radix_classify n i s
    = Some (map (\<lambda>v. computeE v i) (take n (dev_idata s)) @ replicate (2 ^ ilog2ceil n - n) 0)"
proof -
  define N :: nat where "N = 2 ^ ilog2ceil n"
  define cl where "cl = map (\<lambda>v. computeE v i) (take n (dev_idata s))"
  have nN: "n \<le> N" using ilog2ceil_ge [of n] by (simp add: N_def)
  have lcl: "length cl = n" using nN len by (simp add: cl_def N_def)
  have l: "launch ((n + blockSize - 1) div blockSize)
      (\<lambda>index out. kernComputeE index n i out (dev_idata s)) (dev_e s)
    = Some (cl @ drop n (dev_e s))"
    unfolding cl_def using len nN pos
    by (intro classify_launch [where N = N]) (simp_all add: N_def)
  show ?thesis
  proof (cases "n < N")
    case True
    have "(cl @ drop n (dev_e s))[N - 1 := 0] = cl @ replicate (N - n) 0"
    proof (rule nth_equalityI)
      show "length ((cl @ drop n (dev_e s))[N - 1 := 0]) = length (cl @ replicate (N - n) 0)"
        using len lcl nN by (simp add: N_def)
    next
      fix j assume "j < length ((cl @ drop n (dev_e s))[N - 1 := 0])"
      then have j: "j < N" using len lcl nN by (simp add: N_def)
      show "(cl @ drop n (dev_e s))[N - 1 := 0] ! j = (cl @ replicate (N - n) 0) ! j"
      proof (cases "j = N - 1")
        case True
        have "\<not> N - 1 < n" "N - 1 - n < N - n" using \<open>n < N\<close> by simp_all
        moreover have "N - 1 < length (cl @ drop n (dev_e s))"
          using \<open>n < N\<close> len lcl by (simp add: N_def)
        ultimately show ?thesis unfolding True using lcl by (simp add: nth_append)
      next
        case False
        with j have "j + 1 < N" by simp
        with False j lcl len pad [of j] show ?thesis
          by (simp add: nth_append N_def)
      qed
    qed
    moreover have "N - 1 < length (cl @ drop n (dev_e s))"
      using True len lcl by (simp add: N_def)
    ultimately show ?thesis
      using True l unfolding radix_classify_def Let_def N_def [symmetric] cl_def [symmetric]
      by (simp add: store_def)
  next
    case False
    with nN have "n = N" by simp
    then show ?thesis
      using l len unfolding radix_classify_def Let_def N_def [symmetric] cl_def [symmetric]
      by simp
  qed
qed

lemma filter_nth_prefix:
  assumes "j < length xs" "P (xs ! j)"
  shows "filter P xs ! length (filter P (take j xs)) = xs ! j"
    and "length (filter P (take j xs)) < length (filter P xs)"
proof -
  have "xs = take j xs @ xs ! j # drop (Suc j) xs"
    using assms(1) by (simp add: id_take_nth_drop)
  then have "filter P xs = filter P (take j xs) @ xs ! j # filter P (drop (Suc j) xs)"
    using assms(2) by (metis filter.simps(2) filter_append)
  then show "filter P xs ! length (filter P (take j xs)) = xs ! j"
    and "length (filter P (take j xs)) < length (filter P xs)"
    by (simp_all add: nth_append)
qed

lemma filter_prefix_strict:
  assumes "j < k" "k \<le> length xs" "P (xs ! j)"
  shows "length (filter P (take j xs)) < length (filter P (take k xs))"
proof -
  have "j < length (take k xs)" "P (take k xs ! j)" "take j (take k xs) = take j xs"
    using assms by (simp_all add: min_def)
  then show ?thesis
    using filter_nth_prefix(2) [of j "take k xs" P] by simp
qed

lemma dest_less:
  assumes "j < length xs"
  shows "dest i xs j < length xs"
proof -
  have s: "length (filter (\<lambda>v. \<not> bit v i) xs) + length (filter (\<lambda>v. bit v i) xs) = length xs"
    using sum_length_filter_compl [of "\<lambda>v. \<not> bit v i" xs] by simp
  show ?thesis
  proof (cases "bit (xs ! j) i")
    case True
    with assms filter_nth_prefix(2) [of j xs "\<lambda>v. bit v i"] s show ?thesis
      by (simp add: dest_def)
  next
    case False
    with assms filter_nth_prefix(2) [of j xs "\<lambda>v. \<not> bit v i"] s show ?thesis
      by (simp add: dest_def)
  qed
qed

lemma split_bit_dest:
  assumes "j < length xs"
  shows "split_bit i xs ! dest i xs j = xs ! j"
proof (cases "bit (xs ! j) i")
  case True
  with assms filter_nth_prefix(1) [of j xs "\<lambda>v. bit v i"] show ?thesis
    by (simp add: dest_def split_bit_def)
next
  case False
  with assms filter_nth_prefix [of j xs "\<lambda>v. \<not> bit v i"] show ?thesis
    by (simp add: dest_def split_bit_def nth_append)
qed

lemma dest_less_neq:
  assumes "j < k" "k < length xs"
  shows "dest i xs j \<noteq> dest i xs k"
proof -
  have j: "j < length xs" using assms by simp
  have lowlt: "length (filter (\<lambda>v. \<not> bit v i) (take m xs)) < length (filter (\<lambda>v. \<not> bit v i) xs)"
    if "m < length xs" "\<not> bit (xs ! m) i" for m
    using that filter_nth_prefix(2) [of m xs "\<lambda>v. \<not> bit v i"] by simp
  show ?thesis
  proof (cases "bit (xs ! j) i"; cases "bit (xs ! k) i")
    assume b: "bit (xs ! j) i" "bit (xs ! k) i"
    with assms filter_prefix_strict [of j k xs "\<lambda>v. bit v i"] show ?thesis
      by (simp add: dest_def)
  next
    assume b: "bit (xs ! j) i" "\<not> bit (xs ! k) i"
    with assms lowlt [of k] show ?thesis by (simp add: dest_def)
  next
    assume b: "\<not> bit (xs ! j) i" "bit (xs ! k) i"
    with j lowlt [of j] show ?thesis by (simp add: dest_def)
  next
    assume b: "\<not> bit (xs ! j) i" "\<not> bit (xs ! k) i"
    with assms filter_prefix_strict [of j k xs "\<lambda>v. \<not> bit v i"] show ?thesis
      by (simp add: dest_def)
  qed
qed

lemma dest_inj: "inj_on (dest i xs) {..<length xs}"
proof (rule inj_onI)
  fix j k assume "j \<in> {..<length xs}" "k \<in> {..<length xs}" "dest i xs j = dest i xs k"
  then show "j = k"
    using dest_less_neq [of j k xs i] dest_less_neq [of k j xs i]
    by (cases j k rule: linorder_cases) auto
qed

lemma dest_surj:
  assumes "k < length xs"
  shows "\<exists>j<length xs. dest i xs j = k"
proof -
  have "dest i xs ` {..<length xs} = {..<length xs}"
    by (rule endo_inj_surj) (auto simp: dest_inj dest_less)
  with assms have "k \<in> dest i xs ` {..<length xs}" by simp
  then show ?thesis by auto
qed

lemma length_split_bit [simp]: "length (split_bit i xs) = length xs"
  using sum_length_filter_compl [of "\<lambda>v. \<not> bit v i" xs] by (simp add: split_bit_def)

lemma mset_split_bit [simp]: "mset (split_bit i xs) = mset xs"
  by (simp add: split_bit_def)

lemma scatter_steps:
  assumes d: "\<And>j. j < M \<Longrightarrow> d ! j = of_nat (p j)"
    and pl: "\<And>j. j < M \<Longrightarrow> p j < L"
    and L: "L < 2 ^ 31"
    and inj: "inj_on p {..<M}"
    and len: "M \<le> length d" "M \<le> length inp" "M \<le> N" "length od = L"
    and t: "t \<le> M"
  shows "\<exists>out. steps [0..<t] (\<lambda>index out. kernScatter index N d out inp) od = Some out
     \<and> length out = L \<and> (\<forall>j<t. out ! p j = inp ! j)"
  using t
proof (induction t)
  case 0
  show ?case using len by simp
next
  case (Suc t)
  then obtain out where st: "steps [0..<t] (\<lambda>index out. kernScatter index N d out inp) od = Some out"
    and lo: "length out = L" and pre: "\<forall>j<t. out ! p j = inp ! j"
    by auto
  from Suc.prems have t: "t < M" by simp
  have "store_at out (of_nat (p t)) (inp ! t) = Some (out[p t := inp ! t])"
    using pl [OF t] L lo by (intro store_at_count) simp_all
  then have k: "kernScatter t N d out inp = Some (out[p t := inp ! t])"
    using t len d [OF t] by (simp add: kernScatter_def load_def)
  have "\<forall>j<Suc t. out[p t := inp ! t] ! p j = inp ! j"
  proof (intro allI impI)
    fix j assume j: "j < Suc t"
    show "out[p t := inp ! t] ! p j = inp ! j"
    proof (cases "j = t")
      case True
      then show ?thesis using pl [OF t] lo by simp
    next
      case False
      with j have jt: "j < t" by simp
      then have "p j \<noteq> p t"
        using inj t by (auto simp: inj_on_def)
      then show ?thesis using pre jt by simp
    qed
  qed
  with st k lo show ?case by (simp add: steps_append)
qed

lemma sum_list_computeE:
  assumes "i < 32"
  shows "sum_list (map (\<lambda>v. computeE v i) xs) = of_nat (length (filter (\<lambda>v. \<not> bit v i) xs))"
  using assms by (induction xs) (simp_all add: computeE_eq)

lemma sum_list_snoc_last:
  assumes "0 < length (xs :: i32 list)"
  shows "xs ! (length xs - 1) + sum_list (take (length xs - 1) xs) = sum_list xs"
proof -
  have "take (length xs - 1) xs @ [xs ! (length xs - 1)] = xs"
    using assms by (metis Suc_pred' lessI take_Suc_conv_app_nth take_all order_refl)
  then have "sum_list xs = sum_list (take (length xs - 1) xs) + xs ! (length xs - 1)"
    by (metis sum_list.Cons sum_list.Nil sum_list_append add.right_neutral)
  then show ?thesis by (simp add: add.commute)
qed

lemma radix_pass_neutral:
  assumes inv: "neutral n s" and i: "i < 32" and small: "(2::nat) ^ ilog2ceil n < 2 ^ 31"
    and pos: "0 < n"
  shows "\<exists>s'. radix_pass n i s = Some s' \<and> neutral n s'
     \<and> take n (dev_idata s') = split_bit i (take n (dev_idata s))
     \<and> dev_odata s' = dev_idata s'"
proof -
  define N :: nat where "N = 2 ^ ilog2ceil n"
  define xs where "xs = take n (dev_idata s)"
  define cl where "cl = map (\<lambda>v. computeE v i) xs"
  define e where "e = cl @ replicate (N - n) 0"
  define f where "f = map (\<lambda>j. sum_list (take j e)) [0..<N]"
  define c where "c = length (filter (\<lambda>v. \<not> bit v i) xs)"
  define M where "M = min N ((n + blockSize - 1) div blockSize * blockSize)"
  define tt where "tt = map (\<lambda>j. of_nat j - f ! j + of_nat c) [0..<M] @ drop M (dev_t s)"
  define dd where "dd = map (\<lambda>j. if e ! j = 0 then tt ! j else f ! j) [0..<M] @ drop M (dev_d s)"
  define P where "P = (\<lambda>j. if j < n then dest i xs j else j)"
  have len: "length (dev_e s) = N" "length (dev_f s) = N" "length (dev_t s) = N"
    "length (dev_d s) = N" "length (dev_idata s) = N" "length (dev_odata s) = N"
    using inv by (simp_all add: neutral_def N_def)
  have pad: "dev_e s ! j = 0" if "n \<le> j" "j + 1 < N" for j
    using inv that by (simp add: neutral_def N_def)
  have nN: "n \<le> N" using ilog2ceil_ge [of n] by (simp add: N_def)
  have N0: "0 < N" by (simp add: N_def)
  have N31: "N < 2 ^ 31" using small by (simp add: N_def)
  have nM: "n \<le> M" and MN: "M \<le> N" using nN grid_covers' [of n] by (simp_all add: M_def)
  have lxs: "length xs = n" using len nN by (simp add: xs_def)
  have lcl: "length cl = n" using lxs by (simp add: cl_def)
  have le: "length e = N" using lcl nN by (simp add: e_def)
  have lf: "length f = N" by (simp add: f_def)
  have ltt: "length tt = N" using MN len by (simp add: tt_def)
  have ldd: "length dd = N" using MN len by (simp add: dd_def)
  \<comment> \<open>the classification and its scan\<close>
  have e1: "radix_classify n i s = Some e"
    unfolding e_def cl_def xs_def N_def
    by (rule radix_classify_neutral) (use len pad pos in \<open>simp_all add: N_def\<close>)
  have e2: "cudaMemcpy (dev_f s) e N = Some e"
    using le len by (simp add: cudaMemcpy_def)
  have e3: "upDownSweep N e = Some f"
    unfolding f_def N_def by (rule upDownSweep_pow2) (use le in \<open>simp add: N_def\<close>)
  have e4: "load e (N - 1) = Some (e ! (N - 1))" using le N0 by (simp add: load_def)
  have e5: "load f (N - 1) = Some (sum_list (take (N - 1) e))"
    using N0 by (simp add: load_def f_def)
  have "sum_list e = of_nat c"
    using i by (simp add: e_def cl_def c_def sum_list_computeE sum_list_replicate)
  then have total: "e ! (N - 1) + sum_list (take (N - 1) e) = of_nat c"
    using sum_list_snoc_last [of e] le N0 by simp
  \<comment> \<open>the destinations\<close>
  have e6: "launch ((n + blockSize - 1) div blockSize)
      (\<lambda>index out. kernComputeT index N (of_nat c) out f) (dev_t s) = Some tt"
    unfolding tt_def
  proof (rule launch_fill [where L = N and bound = N])
    show "kernComputeT j N (of_nat c) out f = Some out" if "N \<le> j" for j out
      using that by (simp add: kernComputeT_def)
    show "kernComputeT j N (of_nat c) out f = Some (out[j := of_nat j - f ! j + of_nat c])"
      if "j < N" "length out = N" for j out
      using that lf by (simp add: kernComputeT_def load_def store_def)
    show "0 < (n + blockSize - 1) div blockSize" by (rule grid_pos [OF pos])
  qed (use len in \<open>simp_all add: M_def\<close>)
  have e7: "launch ((n + blockSize - 1) div blockSize)
      (\<lambda>index out. kernComputeD index N out e tt f) (dev_d s) = Some dd"
    unfolding dd_def
  proof (rule launch_fill [where L = N and bound = N])
    show "kernComputeD j N out e tt f = Some out" if "N \<le> j" for j out
      using that by (simp add: kernComputeD_def)
    show "kernComputeD j N out e tt f = Some (out[j := if e ! j = 0 then tt ! j else f ! j])"
      if "j < N" "length out = N" for j out
      using that lf le ltt by (simp add: kernComputeD_def load_def store_def)
    show "0 < (n + blockSize - 1) div blockSize" by (rule grid_pos [OF pos])
  qed (use len in \<open>simp_all add: M_def\<close>)
  have fj: "f ! j = of_nat (length (filter (\<lambda>v. \<not> bit v i) (take j xs)))" if "j \<le> n" "j < N" for j
  proof -
    have "take j e = map (\<lambda>v. computeE v i) (take j xs)"
      using that lcl by (simp add: e_def cl_def take_map)
    then show ?thesis using that i by (simp add: f_def sum_list_computeE)
  qed
  have fpad: "f ! j = of_nat c" if "n \<le> j" "j < N" for j
  proof -
    have "take j e = cl @ replicate (j - n) 0"
      using that lcl by (simp add: e_def min_def)
    then show ?thesis
      using that i by (simp add: f_def cl_def c_def sum_list_computeE sum_list_replicate)
  qed
  have ej: "e ! j = (if bit (xs ! j) i then 0 else 1)" if "j < n" for j
    using that lcl lxs i by (simp add: e_def cl_def nth_append computeE_eq)
  have epad: "e ! j = 0" if "n \<le> j" "j < N" for j
    using that lcl by (simp add: e_def nth_append)
  have dj: "dd ! j = of_nat (P j)" if "j < M" for j
  proof -
    have jN: "j < N" using that MN by simp
    have d0: "dd ! j = (if e ! j = 0 then of_nat j - f ! j + of_nat c else f ! j)"
      using that MN len by (simp add: dd_def tt_def nth_append)
    show ?thesis
    proof (cases "j < n")
      case True
      have s: "length (filter (\<lambda>v. \<not> bit v i) (take j xs))
          + length (filter (\<lambda>v. bit v i) (take j xs)) = j"
        using sum_length_filter_compl [of "\<lambda>v. \<not> bit v i" "take j xs"] True lxs by simp
      show ?thesis
      proof (cases "bit (xs ! j) i")
        case b: True
        have "(of_nat j :: i32) = of_nat (length (filter (\<lambda>v. \<not> bit v i) (take j xs)))
            + of_nat (length (filter (\<lambda>v. bit v i) (take j xs)))"
          using s by (metis of_nat_add)
        then show ?thesis
          using True b jN fj [of j] ej [of j]
          by (simp add: d0 P_def dest_def c_def)
      next
        case b: False
        then show ?thesis
          using True jN fj [of j] ej [of j] by (simp add: d0 P_def dest_def)
      qed
    next
      case False
      then show ?thesis using jN fpad [of j] epad [of j] by (simp add: d0 P_def)
    qed
  qed
  have Pl: "P j < N" if "j < M" for j
    using that MN nN dest_less [of j xs i] lxs by (auto simp: P_def)
  have Pinj: "inj_on P {..<M}"
  proof (rule inj_onI)
    fix j k assume "j \<in> {..<M}" "k \<in> {..<M}" "P j = P k"
    then show "j = k"
      using dest_inj [of i xs] dest_less [of j xs i] dest_less [of k xs i] lxs
      by (auto simp: P_def inj_on_def split: if_splits)
  qed
  \<comment> \<open>the scatter\<close>
  obtain out where e8: "steps [0..<M] (\<lambda>index out. kernScatter index N dd out (dev_idata s))
      (dev_odata s) = Some out"
    and lo: "length out = N" and oj: "\<forall>j<M. out ! P j = dev_idata s ! j"
    using scatter_steps [of M dd P N "dev_idata s" N "dev_odata s" M]
      dj Pl N31 Pinj ldd len MN by auto
  have e8': "launch ((n + blockSize - 1) div blockSize)
      (\<lambda>index out. kernScatter index N dd out (dev_idata s)) (dev_odata s) = Some out"
  proof -
    have "launch ((n + blockSize - 1) div blockSize)
      (\<lambda>index out. kernScatter index N dd out (dev_idata s)) (dev_odata s)
      = steps [0..<M] (\<lambda>index out. kernScatter index N dd out (dev_idata s)) (dev_odata s)"
      unfolding M_def
      by (rule launch_guarded) (simp add: kernScatter_def, rule grid_pos [OF pos])
    with e8 show ?thesis by simp
  qed
  have e9: "cudaMemcpy (dev_idata s) out N = Some out"
    using lo len by (simp add: cudaMemcpy_def)
  have sorted_part: "take n out = split_bit i xs"
  proof (rule nth_equalityI)
    show "length (take n out) = length (split_bit i xs)" using lo nN lxs by simp
  next
    fix k assume "k < length (take n out)"
    then have k: "k < n" by simp
    then obtain j where j: "j < n" "dest i xs j = k"
      using dest_surj [of k xs i] lxs by auto
    have "j < M" using j nM by simp
    with oj have "out ! P j = dev_idata s ! j" by blast
    then have "out ! k = dev_idata s ! j" using j by (simp add: P_def)
    also have "\<dots> = xs ! j" using j by (simp add: xs_def)
    also have "\<dots> = split_bit i xs ! k" using split_bit_dest [of j xs i] j lxs by simp
    finally show "take n out ! k = split_bit i xs ! k" using k by simp
  qed
  define s' where "s' = \<lparr>dev_e = e, dev_f = f, dev_t = tt, dev_d = dd, dev_idata = out,
      dev_odata = out\<rparr>"
  have "radix_pass n i s = Some s'"
    apply (simp only: radix_pass_def Let_def N_def [symmetric])
    apply (simp only: e1 Option.bind.bind_lunit e2 e3 e4 e5 total e6 e7 e8' e9 s'_def)
    done
  moreover have "neutral n s'"
  proof -
    have "\<forall>j\<in>{n..<N - 1}. e ! j = 0" using epad by auto
    then show ?thesis
      using le lf ltt ldd lo by (simp add: neutral_def s'_def N_def [symmetric])
  qed
  moreover have "take n (dev_idata s') = split_bit i (take n (dev_idata s))"
    using sorted_part by (simp add: s'_def xs_def)
  moreover have "dev_odata s' = dev_idata s'" by (simp add: s'_def)
  ultimately show ?thesis by blast
qed

lemma key_Suc: "key (Suc k) v = (if bit v k then 2 ^ k else 0) + key k v"
  by (simp add: key_def take_bit_Suc_from_most bit_unsigned_iff)

lemma key_less: "key k v < 2 ^ k"
  by (simp add: key_def)

lemma key_32: "key 32 v = unat v"
proof -
  have "unat v < 2 ^ 32" using unsigned_less [of v] by simp
  then show ?thesis by (simp add: key_def take_bit_nat_eq_self)
qed

lemma sorted_map_shift:
  "sorted (map f xs) \<Longrightarrow> sorted (map (\<lambda>v. (c::nat) + f v) xs)"
  by (induction xs) auto

lemma sorted_split_bit:
  assumes "sorted (map (key k) ys)"
  shows "sorted (map (key (Suc k)) (split_bit k ys))"
proof -
  define A where "A = filter (\<lambda>v. \<not> bit v k) ys"
  define B where "B = filter (\<lambda>v. bit v k) ys"
  have a: "map (key (Suc k)) A = map (key k) A"
    by (rule map_cong) (simp_all add: A_def key_Suc)
  have b: "map (key (Suc k)) B = map (\<lambda>v. 2 ^ k + key k v) B"
    by (rule map_cong) (simp_all add: B_def key_Suc)
  have "sorted (map (key k) A)" "sorted (map (key k) B)"
    using assms unfolding A_def B_def by (simp_all add: sorted_filter)
  then have "sorted (map (key (Suc k)) A)" "sorted (map (key (Suc k)) B)"
    unfolding a b by (simp_all add: sorted_map_shift)
  moreover have "key (Suc k) x \<le> key (Suc k) y" if "x \<in> set A" "y \<in> set B" for x y
  proof -
    have "key (Suc k) x = key k x" using that by (simp add: A_def key_Suc)
    moreover have "2 ^ k \<le> key (Suc k) y" using that by (simp add: B_def key_Suc)
    ultimately show ?thesis using key_less [of k x] by simp
  qed
  ultimately show ?thesis
    by (simp add: split_bit_def A_def [symmetric] B_def [symmetric] sorted_append)
qed

lemma sorted_fold_split_bit: "sorted (map (key k) (fold split_bit [0..<k] xs))"
proof (induction k)
  case 0
  have "map (key 0) ys = replicate (length ys) 0" for ys
    by (induction ys) (simp_all add: key_def)
  then show ?case by (simp add: sorted_replicate)
next
  case (Suc k)
  then show ?case by (simp add: sorted_split_bit)
qed

lemma mset_fold_split_bit: "mset (fold split_bit [0..<k] xs) = mset xs"
  by (induction k) simp_all

lemma length_fold_split_bit: "length (fold split_bit [0..<k] xs) = length xs"
  by (induction k) simp_all

lemma radix_passes_neutral:
  assumes "neutral n s" "(2::nat) ^ ilog2ceil n < 2 ^ 31" "k \<le> 32" "0 < n"
  shows "\<exists>s'. steps [0..<k] (radix_pass n) s = Some s' \<and> neutral n s'
     \<and> take n (dev_idata s') = fold split_bit [0..<k] (take n (dev_idata s))
     \<and> (0 < k \<longrightarrow> dev_odata s' = dev_idata s')"
  using assms(3)
proof (induction k)
  case 0
  show ?case using assms(1) by simp
next
  case (Suc k)
  then obtain s1 where s1: "steps [0..<k] (radix_pass n) s = Some s1" "neutral n s1"
    "take n (dev_idata s1) = fold split_bit [0..<k] (take n (dev_idata s))"
    by auto
  from Suc.prems have "k < 32" by simp
  from radix_pass_neutral [OF s1(2) this assms(2) assms(4)]
  obtain s2 where "radix_pass n k s1 = Some s2" "neutral n s2"
    "take n (dev_idata s2) = split_bit k (take n (dev_idata s1))" "dev_odata s2 = dev_idata s2"
    by blast
  with s1 show ?case by (simp add: steps_append)
qed

lemma radix_init_neutral:
  assumes "n \<le> length idata" "\<forall>j\<in>{n..<2 ^ ilog2ceil n - 1}. heap 0 j = 0"
  shows "\<exists>s. radix_init n idata heap = Some s \<and> neutral n s
     \<and> take n (dev_idata s) = take n idata"
proof -
  have nN: "n \<le> 2 ^ ilog2ceil n" by (rule ilog2ceil_ge)
  have "\<forall>j\<in>{n..<2 ^ ilog2ceil n - 1}. cudaMalloc heap 0 (2 ^ ilog2ceil n) ! j = 0"
  proof
    fix j assume j: "j \<in> {n..<2 ^ ilog2ceil n - 1}"
    then have "j < 2 ^ ilog2ceil n - 1" by simp
    then have "j < 2 ^ ilog2ceil n" by linarith
    then have "cudaMalloc heap 0 (2 ^ ilog2ceil n) ! j = heap 0 j" by (rule nth_cudaMalloc)
    with j assms(2) show "cudaMalloc heap 0 (2 ^ ilog2ceil n) ! j = 0" by simp
  qed
  then show ?thesis
    using assms(1) nN by (simp add: radix_init_def Let_def cudaMemcpy_def neutral_def)
qed

lemma radixSort_neutral_pad:
  assumes pos: "1 \<le> n" and n: "n \<le> length idata" and room: "2 ^ ilog2ceil n \<le> length odata"
    and small: "(2::nat) ^ ilog2ceil n < 2 ^ 31"
    and pad: "\<forall>j\<in>{n..<2 ^ ilog2ceil n - 1}. heap 0 j = 0"
  shows "\<exists>out. radixSort n odata idata heap = Some out
     \<and> mset (take n out) = mset (take n idata) \<and> sorted (map unat (take n out))"
proof -
  obtain s0 where s0: "radix_init n idata heap = Some s0" "neutral n s0"
    "take n (dev_idata s0) = take n idata"
    using radix_init_neutral [of n idata heap] n pad by blast
  obtain s where s: "steps [0..<32] (radix_pass n) s0 = Some s" "neutral n s"
    "take n (dev_idata s) = fold split_bit [0..<32] (take n (dev_idata s0))"
    "dev_odata s = dev_idata s"
    using radix_passes_neutral [OF s0(2) small, of 32] pos by auto
  have l: "length (dev_odata s) = 2 ^ ilog2ceil n" using s(2) by (simp add: neutral_def)
  have nN: "n \<le> 2 ^ ilog2ceil n" by (rule ilog2ceil_ge)
  define out where "out = dev_odata s @ drop (2 ^ ilog2ceil n) odata"
  have r: "radixSort n odata idata heap = Some out"
    using s0(1) s(1) l room by (simp add: radixSort_def radixSort_device_def cudaMemcpy_def out_def)
  have t: "take n out = fold split_bit [0..<32] (take n idata)"
    using s(3,4) s0(3) l nN by (simp add: out_def)
  have "sorted (map (key 32) (take n out))"
    unfolding t by (rule sorted_fold_split_bit)
  moreover have "map (key 32) (take n out) = map unat (take n out)"
    by (rule map_cong) (simp_all add: key_32)
  ultimately have "sorted (map unat (take n out))" by simp
  with r t show ?thesis by (simp add: mset_fold_split_bit)
qed

subsection \<open>Calls with no element\<close>







text \<open>
  \<open>scan\<close> launches no kernel but those of \<open>upDownSweep\<close>, whose grid is computed from
  the padded length. With the padded length of 0 taken to be 1 (the smallest power of two
  that is at least 0), it returns and leaves \<open>out\<close> as it was.
\<close>

lemma scan_0: "scan 0 odata idata heap = Some odata"
  using scan_eq [of 0 idata odata heap] by simp



end
